theory Spec2Isabelle
  imports Complex_Main
begin

section \<open>Conventions of the embedding\<close>

text \<open>
  The development embeds the two functions of \<^verbatim>\<open>hidropy/meteodays/meteodays.py\<close>,
  \<^verbatim>\<open>date2doy\<close> and \<^verbatim>\<open>event2time\<close>.

  \<^item> Python floats are taken as exact real numbers; integer-valued arguments (years, days,
    months, the interval in seconds) are \<open>int\<close>.
  \<^item> A \<^verbatim>\<open>datetime.datetime\<close> is the number of microseconds since the midnight that starts
    proleptic Gregorian ordinal 0, so that 0001-01-01 00:00:00 is one day. A
    \<^verbatim>\<open>timedelta\<close> is a number of microseconds; its constructor rounds a fractional number
    of seconds to the nearest microsecond, as the library does.
  \<^item> Every exception the code can raise is a value of type \<open>error\<close>, and a function that
    can raise returns \<open>error + 'a\<close> with \<open>Inl\<close> the exception.
  \<^item> The code is Python 2. Where Python 2 and 3 differ the model follows Python 2:
    \<^verbatim>\<open>timedelta\<close> rounds halves away from zero, and \<^verbatim>\<open>strftime\<close> refuses years before 1900.
  \<^item> The warnings printed by \<^verbatim>\<open>event2time\<close> are collected by a function of their own.
\<close>

datatype error = IndexError | ValueError | OverflowError | ZeroDivisionError

definition bindE :: "error + 'a \<Rightarrow> ('a \<Rightarrow> error + 'b) \<Rightarrow> error + 'b" where
  "bindE m f = (case m of Inl e \<Rightarrow> Inl e | Inr x \<Rightarrow> f x)"

text \<open>\<^verbatim>\<open>xs[i]\<close> for an index that is never negative.\<close>

definition getitem :: "'a list \<Rightarrow> nat \<Rightarrow> error + 'a" where
  "getitem xs i = (if i < length xs then Inr (xs ! i) else Inl IndexError)"

section \<open>date2doy\<close>

text \<open>
  The leap year test of lines 68-69 and 82-83:
  \<^verbatim>\<open>(mod(yyyy / 4.0, 1) == 0.0 and mod(yyyy / 100.0, 1) != 0.0) or mod(yyyy / 400.0, 1) == 0.0\<close>.
\<close>

definition leap_test :: "int \<Rightarrow> bool" where
  "leap_test yyyy =
     ((frac (real_of_int yyyy / 4) = 0 \<and> frac (real_of_int yyyy / 100) \<noteq> 0)
      \<or> frac (real_of_int yyyy / 400) = 0)"

text \<open>The scalar branch (\<^verbatim>\<open>n < 2\<close>), lines 64-72.\<close>

definition date2doy :: "int \<Rightarrow> int \<Rightarrow> int \<Rightarrow> int" where
  "date2doy dd mm yyyy =
     (let doy = \<lfloor>275 * real_of_int mm / 9 - 30 + real_of_int dd\<rfloor> - 2;
          doy = (if mm < 3 then doy + 2 else doy);
          doy = (if leap_test yyyy then (if mm > 2 then doy + 1 else doy) else doy)
      in doy)"

text \<open>
  The array branch, lines 75-86: the loop \<^verbatim>\<open>for i in range(0, n)\<close> with \<open>n\<close> the size of
  \<^verbatim>\<open>dd\<close>, reading \<^verbatim>\<open>mm[i]\<close>, \<^verbatim>\<open>dd[i]\<close> and \<^verbatim>\<open>yyyy[i]\<close>.
\<close>

fun date2doy_elems :: "int list \<Rightarrow> int list \<Rightarrow> int list \<Rightarrow> nat list \<Rightarrow> error + int list" where
  "date2doy_elems dd mm yyyy [] = Inr []"
| "date2doy_elems dd mm yyyy (i # idx) =
     bindE (getitem mm i) (\<lambda>m.
     bindE (getitem dd i) (\<lambda>d.
     bindE (getitem yyyy i) (\<lambda>y.
     bindE (date2doy_elems dd mm yyyy idx) (\<lambda>rest.
       Inr (date2doy d m y # rest)))))"

definition date2doy_array :: "int list \<Rightarrow> int list \<Rightarrow> int list \<Rightarrow> error + int list" where
  "date2doy_array dd mm yyyy = date2doy_elems dd mm yyyy [0..<length dd]"

text \<open>
  The Gregorian calendar as the specification words it: the lengths of the months, the leap
  year rule with integer remainders, and the ordinal of a date as the days of the months
  before it plus the day of the month.
\<close>

definition is_leap :: "int \<Rightarrow> bool" where
  "is_leap y = ((y mod 4 = 0 \<and> y mod 100 \<noteq> 0) \<or> y mod 400 = 0)"

definition days_in_month :: "int \<Rightarrow> int \<Rightarrow> int" where
  "days_in_month y m =
     (if m = 2 then (if is_leap y then 29 else 28)
      else if m = 4 \<or> m = 6 \<or> m = 9 \<or> m = 11 then 30 else 31)"

definition gregorian_doy :: "int \<Rightarrow> int \<Rightarrow> int \<Rightarrow> int" where
  "gregorian_doy d m y = sum_list (map (days_in_month y) [1..m - 1]) + d"

definition valid_date :: "int \<Rightarrow> int \<Rightarrow> int \<Rightarrow> bool" where
  "valid_date d m y = (1 \<le> m \<and> m \<le> 12 \<and> 1 \<le> d \<and> d \<le> days_in_month y m)"

section \<open>The datetime library\<close>

type_synonym datetime = int

definition us_per_day :: int where
  "us_per_day = 86400000000"

text \<open>Days before January 1 of year \<open>y\<close>; ordinal 1 is 0001-01-01.\<close>

definition days_before_year :: "int \<Rightarrow> int" where
  "days_before_year y = (y - 1) * 365 + (y - 1) div 4 - (y - 1) div 100 + (y - 1) div 400"

definition datetime_min :: datetime where
  "datetime_min = us_per_day"

text \<open>9999-12-31 23:59:59.999999; the ordinal of that day is 3652059.\<close>

definition datetime_max :: datetime where
  "datetime_max = 3652059 * us_per_day + (us_per_day - 1)"

text \<open>\<^verbatim>\<open>datetime.datetime(y, 1, 1, 0, 0, 0)\<close>: the year must be in 1..9999.\<close>

definition datetime_jan1 :: "int \<Rightarrow> error + datetime" where
  "datetime_jan1 y =
     (if 1 \<le> y \<and> y \<le> 9999 then Inr ((days_before_year y + 1) * us_per_day)
      else Inl ValueError)"

text \<open>Rounding of a float to an integer, halves away from zero.\<close>

definition round_to_long :: "real \<Rightarrow> int" where
  "round_to_long x = (if 0 \<le> x then \<lfloor>x + 1 / 2\<rfloor> else \<lceil>x - 1 / 2\<rceil>)"

text \<open>\<^verbatim>\<open>datetime.timedelta(days=d, seconds=s)\<close> in microseconds.\<close>

definition timedelta :: "int \<Rightarrow> real \<Rightarrow> int" where
  "timedelta days seconds = days * us_per_day + round_to_long (seconds * 1000000)"

text \<open>
  \<^verbatim>\<open>dt + delta\<close>. A delta of more than 999999999 days and a sum outside the years 1..9999
  both raise OverflowError, and the first implies the second.
\<close>

definition datetime_add :: "datetime \<Rightarrow> int \<Rightarrow> error + datetime" where
  "datetime_add t delta =
     (if datetime_min \<le> t + delta \<and> t + delta \<le> datetime_max then Inr (t + delta)
      else Inl OverflowError)"

definition toordinal :: "datetime \<Rightarrow> int" where
  "toordinal t = t div us_per_day"

text \<open>The year of an ordinal, by the library's division into 400, 100, 4 and 1 year cycles.\<close>

definition ord2year :: "int \<Rightarrow> int" where
  "ord2year n =
     (let n0 = n - 1;
          n400 = n0 div 146097; r400 = n0 mod 146097;
          n100 = r400 div 36524; r100 = r400 mod 36524;
          n4 = r100 div 1461; r4 = r100 mod 1461;
          n1 = r4 div 365;
          year = n400 * 400 + 1 + n100 * 100 + n4 * 4 + n1
      in if n1 = 4 \<or> n100 = 4 then year - 1 else year)"

text \<open>\<^verbatim>\<open>dt.year\<close>.\<close>

definition year_of :: "datetime \<Rightarrow> int" where
  "year_of t = ord2year (toordinal t)"

text \<open>\<^verbatim>\<open>int(dt.strftime("%j"))\<close>: the day of the year, from 1.\<close>

definition yday :: "datetime \<Rightarrow> int" where
  "yday t = toordinal t - days_before_year (year_of t)"

text \<open>
  \<^verbatim>\<open>int(strftime("%H")) * 3600 + int(strftime("%M")) * 60 + int(strftime("%S"))\<close>: the whole
  seconds since midnight.
\<close>

definition second_of_day :: "datetime \<Rightarrow> int" where
  "second_of_day t = (t mod us_per_day) div 1000000"

text \<open>
  \<^verbatim>\<open>dt.strftime(...)\<close>: the datetime module of Python 2, for which the code is written,
  raises ValueError for a year before 1900.
\<close>

definition strftime_check :: "datetime \<Rightarrow> error + unit" where
  "strftime_check t = (if year_of t < 1900 then Inl ValueError else Inr ())"

section \<open>event2time\<close>

text \<open>
  The absolute time of event \<open>j\<close>, the expression of lines 217 and 226:
  \<^verbatim>\<open>datetime(int(yyyy[j]), 1, 1, 0, 0, 0) + timedelta(days=floor(doytime[j]) - 1, seconds=mod(doytime[j], 1) * 86400)\<close>.
  \<^verbatim>\<open>yyyy[j]\<close> is read first, then \<^verbatim>\<open>doytime[j]\<close>.
\<close>

definition checkdate_at :: "int list \<Rightarrow> real list \<Rightarrow> nat \<Rightarrow> error + datetime" where
  "checkdate_at yyyy doytime j =
     bindE (getitem yyyy j) (\<lambda>y.
     bindE (datetime_jan1 y) (\<lambda>jan1.
     bindE (getitem doytime j) (\<lambda>d.
       datetime_add jan1 (timedelta (\<lfloor>d\<rfloor> - 1) (frac d * 86400)))))"

text \<open>Lines 147-150 and 153-160.\<close>

definition normalize_method :: "string \<Rightarrow> string" where
  "normalize_method method =
     (if method \<noteq> ''sum'' then (if method \<noteq> ''avg'' then ''sum'' else method) else method)"

definition normalize_interval :: "int option \<Rightarrow> int" where
  "normalize_interval interval =
     (let interval = (case interval of None \<Rightarrow> 1800 | Some i \<Rightarrow> i)
      in if interval > 86400 then 86400 else interval)"

text \<open>Lines 165-175: the second of the day of the first boundary, before and after the clamp.\<close>

definition starttime_raw :: "real \<Rightarrow> int \<Rightarrow> real" where
  "starttime_raw d0 interval =
     (let startsecond = frac d0 * 86400;
          starttime = real_of_int \<lfloor>startsecond / real_of_int interval\<rfloor> * real_of_int interval
      in if interval < 86400 then starttime + real_of_int interval else starttime)"

definition starttime_of :: "real \<Rightarrow> int \<Rightarrow> real" where
  "starttime_of d0 interval =
     (let starttime = starttime_raw d0 interval
      in if starttime > 86400 then 86400 else starttime)"

text \<open>Line 178.\<close>

definition start_of :: "real \<Rightarrow> int \<Rightarrow> real" where
  "start_of d0 interval = starttime_of d0 interval / 86400 + real_of_int \<lfloor>d0\<rfloor>"

text \<open>Lines 181-185.\<close>

definition end_of :: "real \<Rightarrow> int \<Rightarrow> real" where
  "end_of dl interval =
     (let endsecond = frac dl * 86400;
          endtime = real_of_int \<lfloor>endsecond / real_of_int interval\<rfloor> * real_of_int interval
      in endtime / 86400 + real_of_int \<lfloor>dl\<rfloor>)"

text \<open>
  Lines 165-190, for an interval already normalised. With interval 0 the divisions of lines
  168 and 184 give nan, which \<^verbatim>\<open>timedelta\<close> rejects with ValueError.
\<close>

definition startdate_of :: "int list \<Rightarrow> real list \<Rightarrow> int \<Rightarrow> error + datetime" where
  "startdate_of yyyy doytime interval =
     bindE (getitem doytime 0) (\<lambda>d0.
     bindE (getitem doytime (length doytime - 1)) (\<lambda>dl.
     bindE (getitem yyyy 0) (\<lambda>y0.
     bindE (datetime_jan1 y0) (\<lambda>jan1.
       if interval = 0 then Inl ValueError
       else let start = start_of d0 interval
            in datetime_add jan1 (timedelta (\<lfloor>start\<rfloor> - 1) (frac start * 86400))))))"

text \<open>Lines 181-195.\<close>

definition enddate_of :: "int list \<Rightarrow> real list \<Rightarrow> int \<Rightarrow> error + datetime" where
  "enddate_of yyyy doytime interval =
     bindE (getitem doytime (length doytime - 1)) (\<lambda>dl.
     bindE (getitem yyyy (length yyyy - 1)) (\<lambda>yl.
     bindE (datetime_jan1 yl) (\<lambda>jan1.
       let end = end_of dl interval
       in datetime_add jan1 (timedelta (\<lfloor>end\<rfloor> - 1) (frac end * 86400)))))"

text \<open>Lines 233-241.\<close>

definition dtime_of :: "int \<Rightarrow> datetime \<Rightarrow> real" where
  "dtime_of interval intervaldate =
     (let dtime = real_of_int (yday intervaldate)
                  + real_of_int (second_of_day intervaldate) / 86400
      in if interval = 86400 then dtime - 1 else dtime)"

definition py_div :: "real \<Rightarrow> real \<Rightarrow> error + real" where
  "py_div a b = (if b = 0 then Inl ZeroDivisionError else Inr (a / b))"

text \<open>Lines 243-252: what one bucket appends to \<^verbatim>\<open>Y\<close>.\<close>

definition append_aggregate :: "string \<Rightarrow> nat \<Rightarrow> real \<Rightarrow> real list \<Rightarrow> error + real list" where
  "append_aggregate method counter processedY Y =
     (let Y = (if method = ''sum'' then Y @ [processedY] else Y)
      in if method = ''avg'' then
           (let (counter, processedY) =
                  (if counter = 0 then (1, - 9999) else (real counter, processedY))
            in bindE (py_div processedY counter) (\<lambda>q. Inr (Y @ [q])))
         else Inr Y)"

text \<open>
  Lines 223-229, the inner loop. The call is made with the \<^verbatim>\<open>checkdate\<close> of event \<open>j\<close>;
  one round counts the event, moves to \<open>j + 1\<close>, computes the \<^verbatim>\<open>checkdate\<close> of that event
  and adds \<^verbatim>\<open>X[j]\<close> for the index already moved.
\<close>

function inner_loop ::
  "int list \<Rightarrow> real list \<Rightarrow> real list \<Rightarrow> datetime \<Rightarrow> nat \<Rightarrow> datetime \<Rightarrow> nat \<Rightarrow> real
   \<Rightarrow> error + (nat \<times> nat \<times> real)" where
  "inner_loop yyyy doytime X intervaldate j checkdate counter processedY =
     (if checkdate < intervaldate then
        (case checkdate_at yyyy doytime (j + 1) of
           Inl e \<Rightarrow> Inl e
         | Inr checkdate' \<Rightarrow>
             (case getitem X (j + 1) of
                Inl e \<Rightarrow> Inl e
              | Inr x \<Rightarrow>
                  inner_loop yyyy doytime X intervaldate (j + 1) checkdate'
                    (counter + 1) (processedY + x)))
      else Inr (j, counter, processedY))"
  by pat_completeness auto
termination
proof (relation "measure (\<lambda>(yyyy, doytime, X, intervaldate, j, checkdate, counter, processedY).
                   length yyyy - j)")
  show "wf (measure (\<lambda>(yyyy, doytime, X, intervaldate, j, checkdate, counter, processedY).
                   length yyyy - j))"
    by simp
next
  fix yyyy :: "int list" and doytime :: "real list" and X :: "real list"
    and intervaldate checkdate checkdate' :: datetime and j counter :: nat
    and processedY x :: real
  assume "checkdate_at yyyy doytime (j + 1) = Inr checkdate'"
  then have "j + 1 < length yyyy"
    by (auto simp: checkdate_at_def bindE_def getitem_def split: if_splits)
  then show "((yyyy, doytime, X, intervaldate, j + 1, checkdate', counter + 1, processedY + x),
              (yyyy, doytime, X, intervaldate, j, checkdate, counter, processedY))
             \<in> measure (\<lambda>(yyyy, doytime, X, intervaldate, j, checkdate, counter, processedY).
                   length yyyy - j)"
    by simp
qed

declare inner_loop.simps [simp del]

text \<open>
  Lines 214-255, the sweep. The state is the boundary \<^verbatim>\<open>intervaldate\<close>, the event index
  \<open>j\<close> and the three output lists; \<^verbatim>\<open>counter\<close> and \<^verbatim>\<open>processedY\<close> are zero at the start
  of every round. The sweep is entered with a nonzero interval only, see \<open>startdate_of\<close>.
\<close>

function outer_loop ::
  "int list \<Rightarrow> real list \<Rightarrow> real list \<Rightarrow> string \<Rightarrow> int \<Rightarrow> datetime \<Rightarrow> datetime \<Rightarrow> nat
   \<Rightarrow> int list \<Rightarrow> real list \<Rightarrow> real list \<Rightarrow> error + (int list \<times> real list \<times> real list)" where
  "outer_loop yyyy doytime X method interval enddate intervaldate j YEAR DECTIME Y =
     (if interval \<noteq> 0 \<and> intervaldate < enddate then
        (case checkdate_at yyyy doytime j of
           Inl e \<Rightarrow> Inl e
         | Inr checkdate \<Rightarrow>
             (case datetime_add intervaldate (timedelta 0 (real_of_int interval)) of
                Inl e \<Rightarrow> Inl e
              | Inr intervaldate' \<Rightarrow>
                  (case inner_loop yyyy doytime X intervaldate' j checkdate 0 0 of
                     Inl e \<Rightarrow> Inl e
                   | Inr (j', counter, processedY) \<Rightarrow>
                       (case strftime_check intervaldate' of
                          Inl e \<Rightarrow> Inl e
                        | Inr u \<Rightarrow>
                            (case append_aggregate method counter processedY Y of
                               Inl e \<Rightarrow> Inl e
                             | Inr Y' \<Rightarrow>
                                 outer_loop yyyy doytime X method interval enddate
                                   intervaldate' j'
                                   (YEAR @ [year_of intervaldate'])
                                   (DECTIME @ [dtime_of interval intervaldate'])
                                   Y')))))
      else Inr (YEAR, DECTIME, Y))"
  by pat_completeness auto

termination
proof (relation "measure (\<lambda>(yyyy, doytime, X, method, interval, enddate, intervaldate, j,
                            YEAR, DECTIME, Y).
          if 0 < interval then nat (enddate - intervaldate)
          else nat (intervaldate - datetime_min))")
  show "wf (measure (\<lambda>(yyyy, doytime, X, method, interval, enddate, intervaldate, j,
                            YEAR, DECTIME, Y).
          if 0 < interval then nat (enddate - intervaldate)
          else nat (intervaldate - datetime_min)))"
    by simp
next
  fix yyyy :: "int list" and doytime X :: "real list" and mth :: string and interval :: int
    and enddate intervaldate intervaldate' :: datetime and j j' :: nat and YEAR :: "int list"
    and DECTIME Y Y' :: "real list"
  assume guard: "interval \<noteq> 0 \<and> intervaldate < enddate"
    and add: "datetime_add intervaldate (timedelta 0 (real_of_int interval)) = Inr intervaldate'"
  have "round_to_long (real_of_int (interval * 1000000)) = interval * 1000000"
    unfolding round_to_long_def by (auto; linarith)
  then have "timedelta 0 (real_of_int interval) = interval * 1000000"
    unfolding timedelta_def by simp
  with add have eq: "intervaldate' = intervaldate + interval * 1000000"
    and lo: "datetime_min \<le> intervaldate'"
    by (auto simp: datetime_add_def split: if_splits)
  show "((yyyy, doytime, X, mth, interval, enddate, intervaldate', j',
           YEAR @ [year_of intervaldate'], DECTIME @ [dtime_of interval intervaldate'], Y'),
          (yyyy, doytime, X, mth, interval, enddate, intervaldate, j, YEAR, DECTIME, Y))
         \<in> measure (\<lambda>(yyyy, doytime, X, mth, interval, enddate, intervaldate, j,
                            YEAR, DECTIME, Y).
          if 0 < interval then nat (enddate - intervaldate)
          else nat (intervaldate - datetime_min))"
    using guard eq lo by auto
qed

declare outer_loop.simps [simp del]

text \<open>
  The whole function: the normalisation of the arguments, the two boundaries, then the
  sweep from \<^verbatim>\<open>intervaldate = startdate\<close>, \<open>j = 0\<close> and empty output lists. The argument
  \<open>None\<close> for the interval is the default of the signature.
\<close>

definition event2time ::
  "int list \<Rightarrow> real list \<Rightarrow> real list \<Rightarrow> string \<Rightarrow> int option
   \<Rightarrow> error + (int list \<times> real list \<times> real list)" where
  "event2time yyyy doytime X method interval =
     (let method = normalize_method method;
          interval = normalize_interval interval
      in bindE (startdate_of yyyy doytime interval) (\<lambda>startdate.
         bindE (enddate_of yyyy doytime interval) (\<lambda>enddate.
           outer_loop yyyy doytime X method interval enddate startdate 0 [] [] [])))"

text \<open>The lines printed by lines 149, 158-159 and 176-177, in the order of printing.\<close>

datatype warning = UnknownMethod | IntervalTooLarge | StartPastMidnight

definition event2time_warnings :: "real list \<Rightarrow> string \<Rightarrow> int option \<Rightarrow> warning list" where
  "event2time_warnings doytime method interval =
     (if method \<noteq> ''sum'' \<and> method \<noteq> ''avg'' then [UnknownMethod] else [])
     @ (if (case interval of None \<Rightarrow> 1800 | Some i \<Rightarrow> i) > 86400 then [IntervalTooLarge] else [])
     @ (case getitem doytime 0 of
          Inl e \<Rightarrow> []
        | Inr d0 \<Rightarrow>
            if starttime_raw d0 (normalize_interval interval) > 86400
            then [StartPastMidnight] else [])"

section \<open>Notions the properties are stated with\<close>

text \<open>
  The buckets of a sweep: the loop of \<open>outer_loop\<close> without the formatting of the rows. A
  bucket is the boundary \<^verbatim>\<open>intervaldate\<close> that closes it, the event index \<open>j\<close> the inner
  loop stopped at, and the values of \<^verbatim>\<open>counter\<close> and \<^verbatim>\<open>processedY\<close> when the inner loop
  stopped.
\<close>

type_synonym bucket = "datetime \<times> nat \<times> nat \<times> real"

function sweep ::
  "int list \<Rightarrow> real list \<Rightarrow> real list \<Rightarrow> int \<Rightarrow> datetime \<Rightarrow> datetime \<Rightarrow> nat
   \<Rightarrow> error + bucket list" where
  "sweep yyyy doytime X interval enddate intervaldate j =
     (if interval \<noteq> 0 \<and> intervaldate < enddate then
        (case checkdate_at yyyy doytime j of
           Inl e \<Rightarrow> Inl e
         | Inr checkdate \<Rightarrow>
             (case datetime_add intervaldate (timedelta 0 (real_of_int interval)) of
                Inl e \<Rightarrow> Inl e
              | Inr intervaldate' \<Rightarrow>
                  (case inner_loop yyyy doytime X intervaldate' j checkdate 0 0 of
                     Inl e \<Rightarrow> Inl e
                   | Inr (j', counter, processedY) \<Rightarrow>
                       (case strftime_check intervaldate' of
                          Inl e \<Rightarrow> Inl e
                        | Inr u \<Rightarrow>
                            (case sweep yyyy doytime X interval enddate intervaldate' j' of
                               Inl e \<Rightarrow> Inl e
                             | Inr bs \<Rightarrow>
                                 Inr ((intervaldate', j', counter, processedY) # bs))))))
      else Inr [])"
  by pat_completeness auto
termination
proof (relation "measure (\<lambda>(yyyy, doytime, X, interval, enddate, intervaldate, j).
          if 0 < interval then nat (enddate - intervaldate)
          else nat (intervaldate - datetime_min))")
  show "wf (measure (\<lambda>(yyyy, doytime, X, interval, enddate, intervaldate, j).
          if 0 < interval then nat (enddate - intervaldate)
          else nat (intervaldate - datetime_min)))"
    by simp
next
  fix yyyy :: "int list" and doytime X :: "real list" and interval :: int
    and enddate intervaldate intervaldate' :: datetime and j j' :: nat
  assume guard: "interval \<noteq> 0 \<and> intervaldate < enddate"
    and add: "datetime_add intervaldate (timedelta 0 (real_of_int interval)) = Inr intervaldate'"
  have "round_to_long (real_of_int (interval * 1000000)) = interval * 1000000"
    unfolding round_to_long_def by (auto; linarith)
  then have "timedelta 0 (real_of_int interval) = interval * 1000000"
    unfolding timedelta_def by simp
  with add have eq: "intervaldate' = intervaldate + interval * 1000000"
    and lo: "datetime_min \<le> intervaldate'"
    by (auto simp: datetime_add_def split: if_splits)
  show "((yyyy, doytime, X, interval, enddate, intervaldate', j'),
          (yyyy, doytime, X, interval, enddate, intervaldate, j))
         \<in> measure (\<lambda>(yyyy, doytime, X, interval, enddate, intervaldate, j).
          if 0 < interval then nat (enddate - intervaldate)
          else nat (intervaldate - datetime_min))"
    using guard eq lo by auto
qed

declare sweep.simps [simp del]

text \<open>What a bucket contributes to \<^verbatim>\<open>Y\<close>: step 3 of the sweep in the specification.\<close>

definition aggregate :: "string \<Rightarrow> nat \<Rightarrow> real \<Rightarrow> real list" where
  "aggregate method counter processedY =
     (if method = ''sum'' then [processedY] else [])
     @ (if method = ''avg'' then [if counter = 0 then - 9999 else processedY / real counter]
        else [])"

text \<open>
  A valid input: three sequences of one length, at least one event, every event with a
  representable absolute time, and the absolute times in ascending order.
\<close>

definition event_times :: "int list \<Rightarrow> real list \<Rightarrow> (error + datetime) list" where
  "event_times yyyy doytime = map (checkdate_at yyyy doytime) [0..<length yyyy]"

definition valid_input :: "int list \<Rightarrow> real list \<Rightarrow> real list \<Rightarrow> bool" where
  "valid_input yyyy doytime X =
     (length yyyy = length doytime \<and> length doytime = length X \<and> 1 \<le> length yyyy
      \<and> list_all (\<lambda>r. \<not> isl r) (event_times yyyy doytime)
      \<and> sorted (map projr (event_times yyyy doytime)))"

text \<open>An interval of at least one second, or the default.\<close>

definition valid_interval :: "int option \<Rightarrow> bool" where
  "valid_interval interval = (case interval of None \<Rightarrow> True | Some i \<Rightarrow> 1 \<le> i)"

text \<open>The indices of the events whose absolute time is strictly before \<open>b\<close>.\<close>

definition events_before :: "int list \<Rightarrow> real list \<Rightarrow> datetime \<Rightarrow> nat list" where
  "events_before yyyy doytime b =
     filter (\<lambda>i. case checkdate_at yyyy doytime i of Inl e \<Rightarrow> False | Inr t \<Rightarrow> t < b)
       [0..<length yyyy]"

text \<open>
  The sum of the values of the events whose absolute time falls in the half-open window
  from \<open>s\<close> to \<open>e\<close>, as the conservation law of the specification reads.
\<close>

definition window_sum :: "int list \<Rightarrow> real list \<Rightarrow> real list \<Rightarrow> datetime \<Rightarrow> datetime \<Rightarrow> real" where
  "window_sum yyyy doytime X s e =
     sum_list (map (\<lambda>i. X ! i)
       (filter (\<lambda>i. case checkdate_at yyyy doytime i of
                      Inl err \<Rightarrow> False | Inr t \<Rightarrow> s \<le> t \<and> t < e)
          [0..<length X]))"

text \<open>
  The event index after the last bucket of a sweep that started at index \<open>j\<close>.
\<close>

definition last_index :: "nat \<Rightarrow> bucket list \<Rightarrow> nat" where
  "last_index j bs = (if bs = [] then j else fst (snd (last bs)))"

text \<open>
  The second of the day of the first and of the last boundary as integers, for an interval
  of 1 to 86400 seconds: what lines 165-175 and 181-184 compute.
\<close>

definition end_second :: "real \<Rightarrow> int \<Rightarrow> int" where
  "end_second d interval = \<lfloor>frac d * 86400 / real_of_int interval\<rfloor> * interval"

definition start_second :: "real \<Rightarrow> int \<Rightarrow> int" where
  "start_second d interval =
     (let s = (if interval < 86400 then end_second d interval + interval
               else end_second d interval)
      in if s > 86400 then 86400 else s)"

text \<open>
  An already equidistant series: the absolute times of the events are one interval apart
  from the time \<open>t0\<close> of the first; every event lies on the grid of the interval within its
  day; and every day of the year exists in its year.
\<close>

definition days_in_year :: "int \<Rightarrow> int" where
  "days_in_year y = (if is_leap y then 366 else 365)"

definition equidistant :: "int list \<Rightarrow> real list \<Rightarrow> int \<Rightarrow> datetime \<Rightarrow> bool" where
  "equidistant yyyy doytime interval t0 =
     (event_times yyyy doytime
      = map (\<lambda>i. Inr (t0 + int i * (interval * 1000000))) [0..<length yyyy])"

definition on_grid :: "real list \<Rightarrow> int \<Rightarrow> bool" where
  "on_grid doytime interval =
     list_all (\<lambda>d. real_of_int (end_second d interval) = frac d * 86400) doytime"

definition doy_in_year :: "int list \<Rightarrow> real list \<Rightarrow> bool" where
  "doy_in_year yyyy doytime =
     list_all2 (\<lambda>y d. 1 \<le> d \<and> d < 1 + real_of_int (days_in_year y)) yyyy doytime"

text \<open>
  The inputs of the examples: the documented call, a daily series across the new year, an
  interval that does not divide the day, a series with an empty bucket, and an hourly
  series on the hourly grid.
\<close>

definition doctest_yyyy :: "int list" where "doctest_yyyy = [2008, 2008, 2008]"
definition doctest_doytime :: "real list" where "doctest_doytime = [153.5, 153.9, 154.1]"
definition doctest_X :: "real list" where "doctest_X = [0, 0.4, 2.0]"

definition newyear_yyyy :: "int list" where "newyear_yyyy = [2007, 2008]"
definition newyear_doytime :: "real list" where "newyear_doytime = [365.5, 1.5]"
definition newyear_X :: "real list" where "newyear_X = [1, 2]"

definition overrun_yyyy :: "int list" where "overrun_yyyy = [2008, 2008]"
definition overrun_doytime :: "real list" where "overrun_doytime = [1, 2]"
definition overrun_X :: "real list" where "overrun_X = [0, 0]"

definition gap_yyyy :: "int list" where "gap_yyyy = [2008, 2008]"
definition gap_doytime :: "real list" where "gap_doytime = [153.1, 153.9]"
definition gap_X :: "real list" where "gap_X = [1, 2]"

definition hourly_yyyy :: "int list" where "hourly_yyyy = [2008, 2008, 2008, 2008]"
definition hourly_doytime :: "real list" where
  "hourly_doytime = [307 / 2, 3685 / 24, 1843 / 12, 1229 / 8]"
definition hourly_X :: "real list" where "hourly_X = [1, 2, 3, 4]"

section \<open>Properties of date2doy\<close>

lemma frac_div_eq_0_iff: "0 < k \<Longrightarrow> frac (real_of_int y / real_of_int k) = 0 \<longleftrightarrow> y mod k = 0"
proof -
  assume k: "0 < k"
  have "frac (real_of_int y / real_of_int k) = 0 \<longleftrightarrow> real_of_int y / real_of_int k = real_of_int (y div k)"
    by (simp add: frac_def floor_divide_of_int_eq) 
  also have "\<dots> \<longleftrightarrow> real_of_int y = real_of_int (y div k) * real_of_int k"
    using k by (simp add: field_simps)
  also have "\<dots> \<longleftrightarrow> y = (y div k) * k"
    by (metis of_int_eq_iff of_int_mult)
  also have "\<dots> \<longleftrightarrow> y mod k = 0"
    using div_mult_mod_eq [of y k] by linarith
  finally show ?thesis .
qed

lemma leap_test_is_leap: "leap_test y = is_leap y"
  using frac_div_eq_0_iff [of 4 y] frac_div_eq_0_iff [of 100 y] frac_div_eq_0_iff [of 400 y]
  by (simp add: leap_test_def is_leap_def)

lemma date2doy_closed_form:
  "date2doy d m y = (275 * m) div 9 - 30 + d - 2 + (if m < 3 then 2 else 0)
                     + (if is_leap y \<and> m > 2 then 1 else 0)"
proof -
  have "275 * real_of_int m / 9 - 30 + real_of_int d
        = real_of_int (275 * m) / real_of_int 9 + real_of_int (d - 30)"
    by simp
  also have "\<lfloor>\<dots>\<rfloor> = (275 * m) div 9 + (d - 30)"
    by (simp only: floor_add_int [symmetric] floor_divide_of_int_eq)
  finally have "\<lfloor>275 * real_of_int m / 9 - 30 + real_of_int d\<rfloor> = (275 * m) div 9 + (d - 30)" .
  then show ?thesis
    by (simp add: date2doy_def leap_test_is_leap Let_def)
qed

lemma date2doy_gregorian:
  assumes "valid_date d m y"
  shows "date2doy d m y = gregorian_doy d m y"
proof -
  from assms have "1 \<le> m" "m \<le> 12"
    by (auto simp: valid_date_def)
  then have "m \<in> {1, 2, 3, 4, 5, 6, 7, 8, 9, 10, 11, 12}"
    by (simp; arith)
  then show ?thesis
    by (auto simp: date2doy_closed_form gregorian_doy_def days_in_month_def upto_rec1)
qed

text \<open>
  Claim C6. For every Gregorian-valid day, month and year, \<open>date2doy\<close> is the ordinal of the
  date in its year: the days of the months before it plus the day of the month. It is the
  closed form \<open>\<lfloor>275 * month / 9 - 30 + day\<rfloor> - 2\<close>, plus 2 when the month is before March,
  plus 1 when the year is leap and the month is after February. The three documented
  examples hold, the third through the array branch.
\<close>

theorem date2doy_exact:
  "(valid_date d m y \<longrightarrow> date2doy d m y = gregorian_doy d m y)
   \<and> date2doy d m y = (275 * m) div 9 - 30 + d - 2 + (if m < 3 then 2 else 0)
                       + (if is_leap y \<and> m > 2 then 1 else 0)
   \<and> date2doy 4 11 2006 = 308
   \<and> date2doy 4 11 2008 = 309
   \<and> date2doy_array [10, 10, 10] [1, 2, 3] [2007, 2008, 2009] = Inr [10, 41, 69]"
proof -
  have a: "date2doy 4 11 2006 = 308" "date2doy 4 11 2008 = 309"
    by (simp_all add: date2doy_closed_form is_leap_def)
  have b: "date2doy_array [10, 10, 10] [1, 2, 3] [2007, 2008, 2009] = Inr [10, 41, 69]"
    by (simp add: date2doy_array_def upt_rec bindE_def getitem_def date2doy_closed_form is_leap_def)
  show ?thesis
    using date2doy_gregorian date2doy_closed_form a b by blast
qed

text \<open>The leap day of 2008 is a valid date, and it is day 60.\<close>

theorem date2doy_exact_witness:
  "valid_date 29 2 2008 \<and> date2doy 29 2 2008 = gregorian_doy 29 2 2008 \<and> gregorian_doy 29 2 2008 = 60"
proof -
  have v: "valid_date 29 2 2008" by (simp add: valid_date_def days_in_month_def is_leap_def)
  have "gregorian_doy 29 2 2008 = 60" by (simp add: gregorian_doy_def days_in_month_def is_leap_def upto_rec1)
  with v date2doy_exact [of 29 2 2008] show ?thesis by simp
qed

section \<open>The calendar\<close>

text \<open>
  The year that the library computes for an ordinal is the year whose days contain it.
\<close>

lemma div_step:
  fixes y d :: int
  assumes "0 < d"
  shows "y div d = (y - 1) div d + (if y mod d = 0 then 1 else 0)"
proof (cases "y mod d = 0")
  case True
  have "y - 1 = d * (y div d - 1) + (d - 1)"
    using True div_mult_mod_eq [of y d] by (simp add: algebra_simps)
  then have "(y - 1) div d = y div d - 1"
    using assms by (intro int_div_pos_eq [where r = "d - 1"]) auto
  with True show ?thesis by simp
next
  case False
  from assms have "0 \<le> y mod d" by simp
  with False have "1 \<le> y mod d" by linarith
  moreover from assms have "y mod d < d" by simp
  ultimately have r: "1 \<le> y mod d" "y mod d < d" by simp_all
  have "y - 1 = d * (y div d) + (y mod d - 1)"
    using div_mult_mod_eq [of y d] by (simp add: algebra_simps)
  then have "(y - 1) div d = y div d"
    using r by (intro int_div_pos_eq [where r = "y mod d - 1"]) auto
  with False show ?thesis by simp
qed

lemma div_diff:
  fixes y d :: int
  assumes "0 < d"
  shows "y div d - (y - 1) div d = (if y mod d = 0 then 1 else 0)"
  using div_step [OF assms, of y] by linarith

lemma dby_step:
  "days_before_year (y + 1) = days_before_year y + (if is_leap y then 366 else 365)"
proof -
  have c: "(100 :: int) dvd 400" "(4 :: int) dvd 100"
    by simp_all
  have a: "y mod 100 = 0" if "y mod 400 = 0"
    using that c(1) by (auto simp: mod_eq_0_iff_dvd elim: dvd_trans)
  have b: "y mod 4 = 0" if "y mod 100 = 0"
    using that c(2) by (auto simp: mod_eq_0_iff_dvd elim: dvd_trans)
  have "days_before_year (y + 1) - days_before_year y
      = 365 + (y div 4 - (y - 1) div 4) - (y div 100 - (y - 1) div 100)
            + (y div 400 - (y - 1) div 400)"
    unfolding days_before_year_def by (simp add: algebra_simps)
  also have "\<dots> = 365 + (if y mod 4 = 0 then 1 else 0) - (if y mod 100 = 0 then 1 else 0)
            + (if y mod 400 = 0 then 1 else 0)"
    using div_diff [of 4 y] div_diff [of 100 y] div_diff [of 400 y] by (simp only:)
  also have "\<dots> = (if is_leap y then 366 else 365)"
    using a b by (cases "y mod 4 = 0"; cases "y mod 100 = 0"; cases "y mod 400 = 0")
      (simp_all add: is_leap_def)
  finally show ?thesis by simp
qed

lemma dby_mono: "y \<le> y' \<Longrightarrow> days_before_year y \<le> days_before_year y'"
proof (induction y' rule: int_ge_induct)
  case base
  then show ?case by simp
next
  case (step i)
  then show ?case using dby_step [of i] by (simp split: if_splits)
qed

lemma dby_mixed_radix:
  fixes a b c e :: int
  assumes "0 \<le> b" "b \<le> 3" "0 \<le> c" "c \<le> 24" "0 \<le> e" "e \<le> 3"
  shows "days_before_year (400 * a + 100 * b + 4 * c + e + 1)
         = 146097 * a + 36524 * b + 1461 * c + 365 * e"
proof -
  let ?Y = "400 * a + 100 * b + 4 * c + e"
  have d4: "?Y div 4 = 100 * a + 25 * b + c"
    using assms by (intro int_div_pos_eq [where r = e]) auto
  have d100: "?Y div 100 = 4 * a + b"
    using assms by (intro int_div_pos_eq [where r = "4 * c + e"]) auto
  have d400: "?Y div 400 = a"
    using assms by (intro int_div_pos_eq [where r = "100 * b + 4 * c + e"]) auto
  show ?thesis
    unfolding days_before_year_def by (simp add: d4 d100 d400)
qed

lemma ord2year_bracket:
  "days_before_year (ord2year n) < n \<and> n \<le> days_before_year (ord2year n + 1)"
proof -
  define n400 where "n400 = (n - 1) div 146097"
  define r400 where "r400 = (n - 1) mod 146097"
  define n100 where "n100 = r400 div 36524"
  define r100 where "r100 = r400 mod 36524"
  define n4 where "n4 = r100 div 1461"
  define r4 where "r4 = r100 mod 1461"
  define n1 where "n1 = r4 div 365"
  define r1 where "r1 = r4 mod 365"
  have e400: "n - 1 = 146097 * n400 + r400" and b400: "0 \<le> r400" "r400 < 146097"
    by (simp_all add: n400_def r400_def)
  have e100: "r400 = 36524 * n100 + r100" and b100: "0 \<le> r100" "r100 < 36524"
    by (simp_all add: n100_def r100_def)
  have e4: "r100 = 1461 * n4 + r4" and b4: "0 \<le> r4" "r4 < 1461"
    by (simp_all add: n4_def r4_def)
  have e1: "r4 = 365 * n1 + r1" and b1: "0 \<le> r1" "r1 < 365"
    by (simp_all add: n1_def r1_def)
  have r100: "0 \<le> n100" "n100 \<le> 4"
    using e100 b400 b100 by linarith+
  have r4: "0 \<le> n4" "n4 \<le> 24"
    using e4 b100 b4 by linarith+
  have r1: "0 \<le> n1" "n1 \<le> 4"
    using e1 b4 b1 by linarith+
  have year: "ord2year n = (if n1 = 4 \<or> n100 = 4
      then n400 * 400 + 1 + n100 * 100 + n4 * 4 + n1 - 1
      else n400 * 400 + 1 + n100 * 100 + n4 * 4 + n1)"
    unfolding ord2year_def Let_def n400_def r400_def n100_def r100_def n4_def r4_def n1_def
    by simp
  consider (century) "n100 = 4" | (leapday) "n100 \<le> 3" "n1 = 4" | (plain) "n100 \<le> 3" "n1 \<le> 3"
    using r100 r1 by linarith
  then show ?thesis
  proof cases
    case century
    with e100 b400 b100 have "r100 = 0" by linarith
    with e4 b4 r4 have "n4 = 0" "r4 = 0" by linarith+
    with e1 b1 r1 have "n1 = 0" "r1 = 0" by linarith+
    have y: "ord2year n = 400 * n400 + 100 * 3 + 4 * 24 + 3 + 1"
      using year century \<open>n4 = 0\<close> \<open>n1 = 0\<close> by simp
    have d: "days_before_year (ord2year n) = 146097 * n400 + 36524 * 3 + 1461 * 24 + 365 * 3"
      unfolding y by (intro dby_mixed_radix) simp_all
    have "ord2year n = 400 * (n400 + 1)"
      unfolding y by simp
    then have "ord2year n mod 400 = 0"
      by simp
    then have "is_leap (ord2year n)"
      by (simp add: is_leap_def)
    with dby_step [of "ord2year n"] d
    have "days_before_year (ord2year n + 1) = 146097 * n400 + 36524 * 3 + 1461 * 24 + 365 * 3 + 366"
      by simp
    with d e400 e100 century \<open>r100 = 0\<close> show ?thesis by linarith
  next
    case leapday
    with e1 b4 b1 have "r1 = 0" by linarith
    from leapday e1 e4 b100 \<open>r1 = 0\<close> have "n4 \<le> 23" by linarith
    have y: "ord2year n = 400 * n400 + 100 * n100 + 4 * n4 + 3 + 1"
      using year leapday by simp
    have d: "days_before_year (ord2year n) = 146097 * n400 + 36524 * n100 + 1461 * n4 + 365 * 3"
      unfolding y using r100 r4 leapday by (intro dby_mixed_radix) simp_all
    have "ord2year n = 4 * (100 * n400 + 25 * n100 + n4 + 1)"
      unfolding y by simp
    then have "ord2year n mod 4 = 0"
      by simp
    moreover have "ord2year n mod 100 \<noteq> 0"
    proof -
      have "ord2year n = 100 * (4 * n400 + n100) + (4 * n4 + 4)"
        unfolding y by simp
      moreover have "0 \<le> 4 * n4 + 4" "4 * n4 + 4 < 100"
        using r4 \<open>n4 \<le> 23\<close> by simp_all
      ultimately have "ord2year n mod 100 = 4 * n4 + 4"
        by (intro int_mod_pos_eq [where q = "4 * n400 + n100"]) simp_all
      with r4 show ?thesis by simp
    qed
    ultimately have "is_leap (ord2year n)"
      by (simp add: is_leap_def)
    with dby_step [of "ord2year n"] d
    have "days_before_year (ord2year n + 1)
        = 146097 * n400 + 36524 * n100 + 1461 * n4 + 365 * 3 + 366"
      by simp
    with d e400 e100 e4 e1 leapday \<open>r1 = 0\<close> show ?thesis by linarith
  next
    case plain
    have y: "ord2year n = 400 * n400 + 100 * n100 + 4 * n4 + n1 + 1"
      using year plain by simp
    have d: "days_before_year (ord2year n)
        = 146097 * n400 + 36524 * n100 + 1461 * n4 + 365 * n1"
      unfolding y using r100 r4 r1 plain by (intro dby_mixed_radix) simp_all
    from dby_step [of "ord2year n"] d
    have "days_before_year (ord2year n + 1)
        \<ge> 146097 * n400 + 36524 * n100 + 1461 * n4 + 365 * n1 + 365"
      by (simp split: if_splits)
    with d e400 e100 e4 e1 b1 show ?thesis by linarith
  qed
qed

lemma ord2year_unique:
  assumes "days_before_year y < n" and "n \<le> days_before_year (y + 1)"
  shows "ord2year n = y"
proof -
  note br = ord2year_bracket [of n]
  have "\<not> ord2year n < y"
  proof
    assume "ord2year n < y"
    then have "days_before_year (ord2year n + 1) \<le> days_before_year y"
      by (intro dby_mono) simp
    with br assms show False by linarith
  qed
  moreover have "\<not> y < ord2year n"
  proof
    assume "y < ord2year n"
    then have "days_before_year (y + 1) \<le> days_before_year (ord2year n)"
      by (intro dby_mono) simp
    with br assms show False by linarith
  qed
  ultimately show ?thesis by simp
qed

section \<open>The sweep and its buckets\<close>

text \<open>
  The rows of \<open>outer_loop\<close> are the buckets of \<open>sweep\<close>, formatted: the year and the
  day of the year of the boundary, and the aggregate of the bucket.
\<close>

lemma timedelta_seconds_int: "timedelta 0 (real_of_int i) = i * 1000000"
proof -
  have "round_to_long (real_of_int (i * 1000000)) = i * 1000000"
    unfolding round_to_long_def by (auto; linarith)
  then show ?thesis
    unfolding timedelta_def by simp
qed

lemma append_aggregate_eq: "append_aggregate m c p Y = Inr (Y @ aggregate m c p)"
  by (auto simp: append_aggregate_def aggregate_def py_div_def bindE_def Let_def)

lemma outer_loop_stop:
  "\<not> (I \<noteq> 0 \<and> cur < e) \<Longrightarrow> outer_loop yyyy doytime X m I e cur j YEAR DEC Y = Inr (YEAR, DEC, Y)"
  by (subst outer_loop.simps) auto

lemma sweep_stop:
  "\<not> (I \<noteq> 0 \<and> cur < e) \<Longrightarrow> sweep yyyy doytime X I e cur j = Inr []"
  by (subst sweep.simps) auto

lemma outer_loop_step:
  "I \<noteq> 0 \<and> cur < e \<Longrightarrow> outer_loop yyyy doytime X m I e cur j YEAR DEC Y =
     (case checkdate_at yyyy doytime j of
           Inl e \<Rightarrow> Inl e
         | Inr checkdate \<Rightarrow>
             (case datetime_add cur (timedelta 0 (real_of_int I)) of
                Inl e \<Rightarrow> Inl e
              | Inr cur' \<Rightarrow>
                  (case inner_loop yyyy doytime X cur' j checkdate 0 0 of
                     Inl e \<Rightarrow> Inl e
                   | Inr (j', c, p) \<Rightarrow>
                       (case strftime_check cur' of
                          Inl e \<Rightarrow> Inl e
                        | Inr u \<Rightarrow>
                            outer_loop yyyy doytime X m I e cur' j'
                              (YEAR @ [year_of cur'])
                              (DEC @ [dtime_of I cur'])
                              (Y @ aggregate m c p)))))"
  by (subst outer_loop.simps) (auto simp: append_aggregate_eq split: sum.splits)

lemma sweep_step:
  "I \<noteq> 0 \<and> cur < e \<Longrightarrow> sweep yyyy doytime X I e cur j =
     (case checkdate_at yyyy doytime j of
           Inl e \<Rightarrow> Inl e
         | Inr checkdate \<Rightarrow>
             (case datetime_add cur (timedelta 0 (real_of_int I)) of
                Inl e \<Rightarrow> Inl e
              | Inr cur' \<Rightarrow>
                  (case inner_loop yyyy doytime X cur' j checkdate 0 0 of
                     Inl e \<Rightarrow> Inl e
                   | Inr (j', c, p) \<Rightarrow>
                       (case strftime_check cur' of
                          Inl e \<Rightarrow> Inl e
                        | Inr u \<Rightarrow>
                            (case sweep yyyy doytime X I e cur' j' of
                               Inl e \<Rightarrow> Inl e
                             | Inr bs \<Rightarrow> Inr ((cur', j', c, p) # bs))))))"
  by (subst sweep.simps) simp

lemma outer_loop_sweep:
  "outer_loop yyyy doytime X m I e cur j YEAR DEC Y =
     (case sweep yyyy doytime X I e cur j of
        Inl err \<Rightarrow> Inl err
      | Inr bs \<Rightarrow> Inr (YEAR @ map (\<lambda>b. year_of (fst b)) bs,
                        DEC @ map (\<lambda>b. dtime_of I (fst b)) bs,
                        Y @ concat (map (\<lambda>(b, j, c, p). aggregate m c p) bs)))"
proof (induction yyyy doytime X m I e cur j YEAR DEC Y rule: outer_loop.induct)
  case (1 yyyy doytime X m I e cur j YEAR DEC Y)
  show ?case
  proof (cases "I \<noteq> 0 \<and> cur < e")
    case False
    show ?thesis
      by (simp add: outer_loop_stop [OF False] sweep_stop [OF False])
  next
    case True
    show ?thesis
    proof (cases "checkdate_at yyyy doytime j")
      case (Inl err)
      with True show ?thesis
        by (simp add: outer_loop_step [OF True] sweep_step [OF True])
    next
      case cd: (Inr checkdate)
      show ?thesis
      proof (cases "datetime_add cur (timedelta 0 (real_of_int I))")
        case (Inl err)
        with True cd show ?thesis
          by (simp add: outer_loop_step [OF True] sweep_step [OF True])
      next
        case nx: (Inr cur')
        show ?thesis
        proof (cases "inner_loop yyyy doytime X cur' j checkdate 0 0")
          case (Inl err)
          with True cd nx show ?thesis
            by (simp add: outer_loop_step [OF True] sweep_step [OF True])
        next
          case (Inr res)
          obtain j' c p where res: "res = (j', c, p)"
            by (cases res) auto
          note il = Inr [unfolded res]
          show ?thesis
          proof (cases "strftime_check cur'")
            case (Inl err)
            with True cd nx il show ?thesis
              by (simp add: outer_loop_step [OF True] sweep_step [OF True])
          next
            case sf: (Inr u)
          have IH: "outer_loop yyyy doytime X m I e cur' j' (YEAR @ [year_of cur'])
                      (DEC @ [dtime_of I cur']) (Y @ aggregate m c p) =
                (case sweep yyyy doytime X I e cur' j' of
                   Inl err \<Rightarrow> Inl err
                 | Inr bs \<Rightarrow> Inr ((YEAR @ [year_of cur']) @ map (\<lambda>b. year_of (fst b)) bs,
                        (DEC @ [dtime_of I cur']) @ map (\<lambda>b. dtime_of I (fst b)) bs,
                        (Y @ aggregate m c p) @ concat (map (\<lambda>(b, j, c, p). aggregate m c p) bs)))"
            using "1.IH" [OF True cd nx il refl refl sf append_aggregate_eq] .
          show ?thesis
            using cd nx il sf IH
            by (simp add: outer_loop_step [OF True] sweep_step [OF True] split: sum.splits)
          qed
        qed
      qed
    qed
  qed
qed

lemma inner_loop_stop:
  "\<not> cd < B \<Longrightarrow> inner_loop yyyy doytime X B j cd c p = Inr (j, c, p)"
  by (subst inner_loop.simps) simp

lemma inner_loop_step:
  "cd < B \<Longrightarrow> inner_loop yyyy doytime X B j cd c p =
     (case checkdate_at yyyy doytime (j + 1) of
        Inl e \<Rightarrow> Inl e
      | Inr cd' \<Rightarrow>
          (case getitem X (j + 1) of
             Inl e \<Rightarrow> Inl e
           | Inr x \<Rightarrow> inner_loop yyyy doytime X B (j + 1) cd' (c + 1) (p + x)))"
  by (subst inner_loop.simps) simp

lemma checkdate_at_Inr_length:
  "checkdate_at yyyy doytime j = Inr t \<Longrightarrow> j < length yyyy \<and> j < length doytime"
  by (auto simp: checkdate_at_def bindE_def getitem_def split: if_splits sum.splits)

lemma getitem_Inr: "getitem xs i = Inr x \<longleftrightarrow> i < length xs \<and> x = xs ! i"
  by (auto simp: getitem_def)

lemma inner_loop_result:
  assumes "inner_loop yyyy doytime X B j cd c p = Inr (j', c', p')"
  shows "j \<le> j' \<and> c' = c + (j' - j) \<and> p' = p + sum_list (map (\<lambda>i. X ! i) [Suc j..<Suc j'])
         \<and> (j < j' \<longrightarrow> j' < length X \<and> j' < length yyyy)"
  using assms
proof (induction yyyy doytime X B j cd c p rule: inner_loop.induct)
  case (1 yyyy doytime X B j cd c p)
  show ?case
  proof (cases "cd < B")
    case False
    with "1.prems" show ?thesis
      by (simp add: inner_loop_stop)
  next
    case True
    from "1.prems" True obtain cd' x where
      cd': "checkdate_at yyyy doytime (j + 1) = Inr cd'"
      and x: "getitem X (j + 1) = Inr x"
      and rec: "inner_loop yyyy doytime X B (j + 1) cd' (c + 1) (p + x) = Inr (j', c', p')"
      by (auto simp: inner_loop_step split: sum.splits)
    from "1.IH" [OF True cd' x rec]
    have IH: "j + 1 \<le> j'" "c' = c + 1 + (j' - (j + 1))"
      "p' = p + x + sum_list (map (\<lambda>i. X ! i) [Suc (j + 1)..<Suc j'])"
      "j + 1 < j' \<longrightarrow> j' < length X \<and> j' < length yyyy"
      by auto
    from x have xj: "x = X ! (j + 1)" "j + 1 < length X"
      by (auto simp: getitem_Inr)
    from cd' have "j + 1 < length yyyy"
      by (auto dest: checkdate_at_Inr_length)
    have "[Suc j..<Suc j'] = Suc j # [Suc (Suc j)..<Suc j']"
      using IH(1) by (simp add: upt_conv_Cons)
    with IH xj \<open>j + 1 < length yyyy\<close> show ?thesis
      by (cases "j + 1 = j'") auto
  qed
qed

lemma inner_loop_times:
  assumes "inner_loop yyyy doytime X B j cd c p = Inr (j', c', p')"
    and "checkdate_at yyyy doytime j = Inr cd"
  shows "(\<forall>i. j \<le> i \<and> i < j' \<longrightarrow> (\<exists>t. checkdate_at yyyy doytime i = Inr t \<and> t < B))
         \<and> (\<exists>t. checkdate_at yyyy doytime j' = Inr t \<and> \<not> t < B)"
  using assms
proof (induction yyyy doytime X B j cd c p rule: inner_loop.induct)
  case (1 yyyy doytime X B j cd c p)
  show ?case
  proof (cases "cd < B")
    case False
    with "1.prems" show ?thesis
      by (auto simp: inner_loop_stop)
  next
    case True
    from "1.prems" True obtain cd' x where
      cd': "checkdate_at yyyy doytime (j + 1) = Inr cd'"
      and x: "getitem X (j + 1) = Inr x"
      and rec: "inner_loop yyyy doytime X B (j + 1) cd' (c + 1) (p + x) = Inr (j', c', p')"
      by (auto simp: inner_loop_step split: sum.splits)
    from "1.IH" [OF True cd' x rec cd']
    have IH: "\<forall>i. j + 1 \<le> i \<and> i < j' \<longrightarrow> (\<exists>t. checkdate_at yyyy doytime i = Inr t \<and> t < B)"
      "\<exists>t. checkdate_at yyyy doytime j' = Inr t \<and> \<not> t < B"
      by auto
    have "\<exists>t. checkdate_at yyyy doytime i = Inr t \<and> t < B" if "j \<le> i" "i < j'" for i
    proof (cases "i = j")
      case True
      with \<open>cd < B\<close> "1.prems"(2) show ?thesis by simp
    next
      case False
      with that IH(1) show ?thesis by simp
    qed
    with IH(2) show ?thesis by blast
  qed
qed

lemma sweep_Inr_cases:
  assumes "sweep yyyy doytime X I e cur j = Inr bs"
  obtains (stop) "\<not> (I \<noteq> 0 \<and> cur < e)" and "bs = []"
  | (step) cd j' c p bs' where "I \<noteq> 0" and "cur < e"
      and "checkdate_at yyyy doytime j = Inr cd"
      and "datetime_add cur (I * 1000000) = Inr (cur + I * 1000000)"
      and "inner_loop yyyy doytime X (cur + I * 1000000) j cd 0 0 = Inr (j', c, p)"
      and "sweep yyyy doytime X I e (cur + I * 1000000) j' = Inr bs'"
      and "bs = (cur + I * 1000000, j', c, p) # bs'"
      and "1900 \<le> year_of (cur + I * 1000000)"
proof (cases "I \<noteq> 0 \<and> cur < e")
  case False
  with assms have "bs = []" by (simp add: sweep_stop)
  with False show ?thesis by (rule stop)
next
  case True
  from assms obtain cd cur' j' c p bs' where
    a: "checkdate_at yyyy doytime j = Inr cd"
    "datetime_add cur (I * 1000000) = Inr cur'"
    "inner_loop yyyy doytime X cur' j cd 0 0 = Inr (j', c, p)"
    "sweep yyyy doytime X I e cur' j' = Inr bs'"
    "bs = (cur', j', c, p) # bs'"
    "1900 \<le> year_of cur'"
    by (auto simp: sweep_step [OF True] timedelta_seconds_int strftime_check_def
        split: sum.splits if_splits)
  from a(2) have "cur' = cur + I * 1000000"
    by (auto simp: datetime_add_def split: if_splits)
  with a True show ?thesis
    by (intro step [of cd j' c p bs']) auto
qed


lemma sweep_boundaries:
  "sweep yyyy doytime X I e cur j = Inr bs \<Longrightarrow> k < length bs
   \<Longrightarrow> fst (bs ! k) = cur + (int k + 1) * (I * 1000000)"
proof (induction bs arbitrary: cur j k)
  case Nil
  then show ?case by simp
next
  case (Cons b bs)
  from Cons.prems(1) show ?case
  proof (cases rule: sweep_Inr_cases)
    case stop
    then show ?thesis by simp
  next
    case (step cd j' c p bs')
    then have bs': "bs' = bs" and b: "b = (cur + I * 1000000, j', c, p)"
      by auto
    show ?thesis
    proof (cases k)
      case 0
      with b show ?thesis by simp
    next
      case (Suc k')
      with Cons.prems(2) have "k' < length bs" by simp
      from Cons.IH [OF step(6) [unfolded bs'] this] Suc
      show ?thesis by (simp add: algebra_simps)
    qed
  qed
qed

lemma sweep_total:
  "sweep yyyy doytime X I e cur j = Inr bs \<Longrightarrow>
     j \<le> last_index j bs
     \<and> sum_list (map (\<lambda>b. snd (snd (snd b))) bs)
         = sum_list (map (\<lambda>i. X ! i) [Suc j..<Suc (last_index j bs)])"
proof (induction bs arbitrary: cur j)
  case Nil
  then show ?case by (simp add: last_index_def)
next
  case (Cons b bs)
  from Cons.prems(1) show ?case
  proof (cases rule: sweep_Inr_cases)
    case stop
    then show ?thesis by simp
  next
    case (step cd j' c p bs')
    then have bs': "bs' = bs" and b: "b = (cur + I * 1000000, j', c, p)"
      by auto
    from inner_loop_result [OF step(5)]
    have jj': "j \<le> j'" and p: "p = sum_list (map (\<lambda>i. X ! i) [Suc j..<Suc j'])"
      by auto
    from Cons.IH [OF step(6) [unfolded bs']]
    have IH: "j' \<le> last_index j' bs"
      "sum_list (map (\<lambda>b. snd (snd (snd b))) bs)
         = sum_list (map (\<lambda>i. X ! i) [Suc j'..<Suc (last_index j' bs)])"
      by auto
    have li: "last_index j (b # bs) = last_index j' bs"
      by (simp add: last_index_def b)
    from IH(1) obtain d where d: "Suc (last_index j' bs) = Suc j' + d"
      by (metis Suc_le_mono le_Suc_ex)
    have "[Suc j..<Suc (last_index j' bs)] = [Suc j..<Suc j'] @ [Suc j'..<Suc (last_index j' bs)]"
      unfolding d using jj' by (intro upt_add_eq_append) simp
    with IH p jj' li b show ?thesis
      by simp
  qed
qed

lemma sweep_zero_count:
  "sweep yyyy doytime X I e cur j = Inr bs \<Longrightarrow> (b, j', c, p) \<in> set bs \<Longrightarrow> c = 0 \<Longrightarrow> p = 0"
proof (induction bs arbitrary: cur j)
  case Nil
  then show ?case by simp
next
  case (Cons b0 bs)
  from Cons.prems(1) show ?case
  proof (cases rule: sweep_Inr_cases)
    case stop
    then show ?thesis by simp
  next
    case (step cd j0 c0 p0 bs')
    then have bs': "bs' = bs" and b0: "b0 = (cur + I * 1000000, j0, c0, p0)"
      by auto
    show ?thesis
    proof (cases "(b, j', c, p) = b0")
      case True
      with b0 have "c0 = c" "p0 = p" by auto
      with inner_loop_result [OF step(5)] Cons.prems(3) show ?thesis
        by auto
    next
      case False
      with Cons.prems(2) have "(b, j', c, p) \<in> set bs" by simp
      from Cons.IH [OF step(6) [unfolded bs'] this Cons.prems(3)] show ?thesis .
    qed
  qed
qed

lemma sweep_last_events:
  assumes "sweep yyyy doytime X I e cur j = Inr bs" and "bs \<noteq> []" and "0 < I"
    and "\<forall>i<length yyyy. checkdate_at yyyy doytime i = Inr (ts ! i)"
    and "\<forall>i k. i \<le> k \<and> k < length yyyy \<longrightarrow> ts ! i \<le> ts ! k"
    and "\<forall>i<j. ts ! i < cur"
  shows "last_index j bs < length yyyy
         \<and> (\<forall>i<length yyyy. ts ! i < fst (last bs) \<longleftrightarrow> i < last_index j bs)"
  using assms(1,2,6)
proof (induction bs arbitrary: cur j)
  case Nil
  then show ?case by simp
next
  case (Cons b bs)
  from Cons.prems(1) show ?case
  proof (cases rule: sweep_Inr_cases)
    case stop
    then show ?thesis by simp
  next
    case (step cd j' c p bs')
    then have bs': "bs' = bs" and b: "b = (cur + I * 1000000, j', c, p)"
      by auto
    let ?B = "cur + I * 1000000"
    from inner_loop_times [OF step(5) step(3)]
    have lt: "\<forall>i. j \<le> i \<and> i < j' \<longrightarrow> (\<exists>t. checkdate_at yyyy doytime i = Inr t \<and> t < ?B)"
      and ge: "\<exists>t. checkdate_at yyyy doytime j' = Inr t \<and> \<not> t < ?B"
      by auto
    from ge have j'n: "j' < length yyyy"
      by (auto dest: checkdate_at_Inr_length)
    with ge assms(4) have gej: "\<not> ts ! j' < ?B"
      by auto
    from inner_loop_result [OF step(5)] have jj': "j \<le> j'" by simp
    have below: "ts ! i < ?B" if "i < j'" for i
    proof (cases "i < j")
      case True
      with Cons.prems(3) have "ts ! i < cur" by simp
      moreover from assms(3) have "0 < I * 1000000" by simp
      ultimately show ?thesis by linarith
    next
      case False
      with that lt obtain t where "checkdate_at yyyy doytime i = Inr t" "t < ?B"
        by (meson not_le_imp_less leI)
      moreover from that j'n have "i < length yyyy" by simp
      ultimately show ?thesis using assms(4) by auto
    qed
    show ?thesis
    proof (cases "bs = []")
      case True
      have "ts ! i < ?B \<longleftrightarrow> i < j'" if "i < length yyyy" for i
      proof
        assume "ts ! i < ?B"
        show "i < j'"
        proof (rule ccontr)
          assume "\<not> i < j'"
          then have "j' \<le> i" by simp
          with assms(5) that have "ts ! j' \<le> ts ! i" by blast
          with gej \<open>ts ! i < ?B\<close> show False by simp
        qed
      next
        assume "i < j'"
        then show "ts ! i < ?B" by (rule below)
      qed
      with True b j'n show ?thesis
        by (simp add: last_index_def)
    next
      case False
      have "\<forall>i<j'. ts ! i < ?B" using below by blast
      from Cons.IH [OF step(6) [unfolded bs'] False this]
      have "last_index j' bs < length yyyy
         \<and> (\<forall>i<length yyyy. ts ! i < fst (last bs) \<longleftrightarrow> i < last_index j' bs)" .
      with False show ?thesis
        by (simp add: last_index_def)
    qed
  qed
qed

lemma normalize_method_cases: "normalize_method m = ''sum'' \<or> normalize_method m = ''avg''"
  by (simp add: normalize_method_def)

lemma normalize_interval_le: "normalize_interval i \<le> 86400"
  by (simp add: normalize_interval_def Let_def split: option.splits)

lemma valid_interval_pos: "valid_interval i \<Longrightarrow> 1 \<le> normalize_interval i"
  by (auto simp: valid_interval_def normalize_interval_def Let_def split: option.splits)

lemma event2time_Inr_iff:
  "event2time yyyy doytime X method interval = Inr (YEAR, DECTIME, Y) \<longleftrightarrow>
     (\<exists>s e bs. startdate_of yyyy doytime (normalize_interval interval) = Inr s
        \<and> enddate_of yyyy doytime (normalize_interval interval) = Inr e
        \<and> sweep yyyy doytime X (normalize_interval interval) e s 0 = Inr bs
        \<and> YEAR = map (\<lambda>b. year_of (fst b)) bs
        \<and> DECTIME = map (\<lambda>b. dtime_of (normalize_interval interval) (fst b)) bs
        \<and> Y = concat (map (\<lambda>(b, j, c, p). aggregate (normalize_method method) c p) bs))"
  by (auto simp: event2time_def Let_def bindE_def outer_loop_sweep split: sum.splits)

lemma event2time_Inl_iff:
  "event2time yyyy doytime X method interval = Inl err \<longleftrightarrow>
     startdate_of yyyy doytime (normalize_interval interval) = Inl err
     \<or> (\<exists>s. startdate_of yyyy doytime (normalize_interval interval) = Inr s
          \<and> (enddate_of yyyy doytime (normalize_interval interval) = Inl err
              \<or> (\<exists>e. enddate_of yyyy doytime (normalize_interval interval) = Inr e
                   \<and> sweep yyyy doytime X (normalize_interval interval) e s 0 = Inl err)))"
  by (auto simp: event2time_def Let_def bindE_def outer_loop_sweep split: sum.splits)

lemma concat_aggregate:
  "concat (map (\<lambda>(b, j, c, p). aggregate (normalize_method m) c p) bs)
   = map (\<lambda>(b, j, c, p). if normalize_method m = ''sum'' then p
                          else if c = 0 then - 9999 else p / real c) bs"
  using normalize_method_cases [of m]
  by (induction bs) (auto simp: aggregate_def)

lemma second_of_day_bounds: "0 \<le> second_of_day t \<and> second_of_day t < 86400"
proof -
  have "0 \<le> t mod us_per_day" "t mod us_per_day < 86400 * 1000000"
    by (simp_all add: us_per_day_def)
  then show ?thesis
    unfolding second_of_day_def by (simp add: div_less_iff_less_mult pos_imp_zdiv_nonneg_iff)
qed

lemma floor_dtime_of:
  "\<lfloor>dtime_of I t\<rfloor> = yday t - (if I = 86400 then 1 else 0)"
proof -
  have "\<lfloor>real_of_int (yday t) + real_of_int (second_of_day t) / 86400\<rfloor> = yday t"
    using second_of_day_bounds [of t] by (intro floor_unique) auto
  then show ?thesis
    by (simp add: dtime_of_def Let_def)
qed


lemma inner_loop_no_zero_division:
  "inner_loop yyyy doytime X B j cd c p \<noteq> Inl ZeroDivisionError"
proof (induction yyyy doytime X B j cd c p rule: inner_loop.induct)
  case (1 yyyy doytime X B j cd c p)
  show ?case
  proof (cases "cd < B")
    case False
    then show ?thesis by (simp add: inner_loop_stop)
  next
    case True
    show ?thesis
    proof (cases "checkdate_at yyyy doytime (j + 1)")
      case (Inl err)
      then have "err \<noteq> ZeroDivisionError"
        by (auto simp: checkdate_at_def bindE_def getitem_def datetime_jan1_def datetime_add_def
            split: if_splits sum.splits)
      with Inl True show ?thesis by (simp add: inner_loop_step)
    next
      case cd': (Inr cd')
      show ?thesis
      proof (cases "getitem X (j + 1)")
        case (Inl err)
        then have "err \<noteq> ZeroDivisionError"
          by (auto simp: getitem_def split: if_splits)
        with Inl cd' True show ?thesis by (simp add: inner_loop_step)
      next
        case (Inr x)
        from "1.IH" [OF True cd' Inr] True cd' Inr show ?thesis
          by (simp add: inner_loop_step)
      qed
    qed
  qed
qed

lemma checkdate_at_no_zero_division: "checkdate_at yyyy doytime j \<noteq> Inl ZeroDivisionError"
  by (auto simp: checkdate_at_def bindE_def getitem_def datetime_jan1_def datetime_add_def
      split: if_splits sum.splits)

lemma sweep_no_zero_division:
  "sweep yyyy doytime X I e cur j \<noteq> Inl ZeroDivisionError"
proof (induction yyyy doytime X I e cur j rule: sweep.induct)
  case (1 yyyy doytime X I e cur j)
  show ?case
  proof (cases "I \<noteq> 0 \<and> cur < e")
    case False
    then show ?thesis by (simp add: sweep_stop)
  next
    case True
    show ?thesis
    proof (cases "checkdate_at yyyy doytime j")
      case (Inl err)
      with checkdate_at_no_zero_division [of yyyy doytime j] show ?thesis
        by (auto simp: sweep_step [OF True])
    next
      case cd: (Inr cd)
      show ?thesis
      proof (cases "datetime_add cur (timedelta 0 (real_of_int I))")
        case (Inl err)
        then have "err \<noteq> ZeroDivisionError"
          by (auto simp: datetime_add_def split: if_splits)
        with Inl cd show ?thesis by (simp add: sweep_step [OF True])
      next
        case nx: (Inr cur')
        show ?thesis
        proof (cases "inner_loop yyyy doytime X cur' j cd 0 0")
          case (Inl err)
          with inner_loop_no_zero_division [of yyyy doytime X cur' j cd 0 0] cd nx show ?thesis
            by (auto simp: sweep_step [OF True])
        next
          case (Inr res)
          obtain j' c p where res: "res = (j', c, p)" by (cases res) auto
          show ?thesis
          proof (cases "strftime_check cur'")
            case (Inl err)
            then have "err \<noteq> ZeroDivisionError"
              by (auto simp: strftime_check_def split: if_splits)
            with Inl cd nx Inr res show ?thesis
              by (simp add: sweep_step [OF True])
          next
            case sf: (Inr u)
            from "1.IH" [OF True cd nx Inr [unfolded res] refl refl sf] cd nx Inr res sf
            show ?thesis
              by (auto simp: sweep_step [OF True] split: sum.splits)
          qed
        qed
      qed
    qed
  qed
qed

lemma boundaries_no_zero_division:
  "startdate_of yyyy doytime I \<noteq> Inl ZeroDivisionError"
  "enddate_of yyyy doytime I \<noteq> Inl ZeroDivisionError"
  by (auto simp: startdate_of_def enddate_of_def bindE_def getitem_def datetime_jan1_def
      datetime_add_def Let_def split: if_splits sum.splits)

text \<open>
  Claim C9. Row \<open>k\<close> of a run that returns belongs to the boundary \<open>k + 1\<close> intervals
  after the start: its year is the year of that boundary, and the whole part of its day of
  the year is the day of the year of the boundary, minus 1 when the interval is 86400
  seconds and unchanged when the interval is shorter.
\<close>

theorem daily_rows_carry_previous_day:
  assumes "event2time yyyy doytime X method interval = Inr (YEAR, DECTIME, Y)"
    and "startdate_of yyyy doytime (normalize_interval interval) = Inr s"
    and "k < length DECTIME"
  shows "YEAR ! k = year_of (s + (int k + 1) * (normalize_interval interval * 1000000))
    \<and> \<lfloor>DECTIME ! k\<rfloor>
        = yday (s + (int k + 1) * (normalize_interval interval * 1000000))
          - (if normalize_interval interval = 86400 then 1 else 0)
    \<and> normalize_interval interval \<le> 86400"
proof -
  from assms(1,2) obtain e bs where
    sw: "sweep yyyy doytime X (normalize_interval interval) e s 0 = Inr bs"
    and Y: "YEAR = map (\<lambda>b. year_of (fst b)) bs"
    and D: "DECTIME = map (\<lambda>b. dtime_of (normalize_interval interval) (fst b)) bs"
    by (auto simp: event2time_Inr_iff)
  from D assms(3) have k: "k < length bs" by simp
  from sweep_boundaries [OF sw k]
  have "fst (bs ! k) = s + (int k + 1) * (normalize_interval interval * 1000000)" .
  with Y D k show ?thesis
    by (simp add: floor_dtime_of normalize_interval_le)
qed

text \<open>
  Claim C4. No run ends in a division by zero. In a run that returns, every row is the
  aggregate of its bucket: in average mode \<open>-9999\<close> for a bucket whose counter is zero and
  the accumulated sum divided by the counter otherwise; in sum mode the accumulated sum,
  which is zero for a bucket whose counter is zero.
\<close>

theorem aggregate_of_every_bucket:
  "event2time yyyy doytime X method interval \<noteq> Inl ZeroDivisionError
   \<and> (event2time yyyy doytime X method interval = Inr (YEAR, DECTIME, Y) \<longrightarrow>
       (\<exists>s e bs. startdate_of yyyy doytime (normalize_interval interval) = Inr s
          \<and> enddate_of yyyy doytime (normalize_interval interval) = Inr e
          \<and> sweep yyyy doytime X (normalize_interval interval) e s 0 = Inr bs
          \<and> length Y = length bs
          \<and> (\<forall>k<length bs. case bs ! k of (b, j, counter, processedY) \<Rightarrow>
                (normalize_method method = ''avg'' \<and> counter = 0 \<longrightarrow> Y ! k = - 9999)
              \<and> (normalize_method method = ''avg'' \<and> 1 \<le> counter
                   \<longrightarrow> Y ! k = processedY / real counter)
              \<and> (normalize_method method = ''sum'' \<longrightarrow> Y ! k = processedY)
              \<and> (normalize_method method = ''sum'' \<and> counter = 0 \<longrightarrow> Y ! k = 0))))"
proof (intro conjI impI)
  show "event2time yyyy doytime X method interval \<noteq> Inl ZeroDivisionError"
    using boundaries_no_zero_division sweep_no_zero_division
    by (auto simp: event2time_Inl_iff)
next
  assume "event2time yyyy doytime X method interval = Inr (YEAR, DECTIME, Y)"
  then obtain s e bs where
    s: "startdate_of yyyy doytime (normalize_interval interval) = Inr s"
    and e: "enddate_of yyyy doytime (normalize_interval interval) = Inr e"
    and sw: "sweep yyyy doytime X (normalize_interval interval) e s 0 = Inr bs"
    and Y: "Y = map (\<lambda>(b, j, c, p). if normalize_method method = ''sum'' then p
                          else if c = 0 then - 9999 else p / real c) bs"
    by (auto simp: event2time_Inr_iff concat_aggregate)
  have "case bs ! k of (b, j, counter, processedY) \<Rightarrow>
                (normalize_method method = ''avg'' \<and> counter = 0 \<longrightarrow> Y ! k = - 9999)
              \<and> (normalize_method method = ''avg'' \<and> 1 \<le> counter
                   \<longrightarrow> Y ! k = processedY / real counter)
              \<and> (normalize_method method = ''sum'' \<longrightarrow> Y ! k = processedY)
              \<and> (normalize_method method = ''sum'' \<and> counter = 0 \<longrightarrow> Y ! k = 0)"
    if k: "k < length bs" for k
  proof -
    obtain b j c p where bk: "bs ! k = (b, j, c, p)"
      by (cases "bs ! k") auto
    with k have "(b, j, c, p) \<in> set bs"
      by (metis nth_mem)
    from sweep_zero_count [OF sw this] have "c = 0 \<Longrightarrow> p = 0" .
    with bk k show ?thesis
      by (auto simp: Y)
  qed
  with s e sw Y
  show "\<exists>s e bs. startdate_of yyyy doytime (normalize_interval interval) = Inr s
          \<and> enddate_of yyyy doytime (normalize_interval interval) = Inr e
          \<and> sweep yyyy doytime X (normalize_interval interval) e s 0 = Inr bs
          \<and> length Y = length bs
          \<and> (\<forall>k<length bs. case bs ! k of (b, j, counter, processedY) \<Rightarrow>
                (normalize_method method = ''avg'' \<and> counter = 0 \<longrightarrow> Y ! k = - 9999)
              \<and> (normalize_method method = ''avg'' \<and> 1 \<le> counter
                   \<longrightarrow> Y ! k = processedY / real counter)
              \<and> (normalize_method method = ''sum'' \<longrightarrow> Y ! k = processedY)
              \<and> (normalize_method method = ''sum'' \<and> counter = 0 \<longrightarrow> Y ! k = 0))"
    by (intro exI [of _ s] exI [of _ e] exI [of _ bs]) simp
qed

section \<open>The two boundaries\<close>

lemma round_to_long_of_int: "round_to_long (real_of_int k) = k"
  unfolding round_to_long_def by (auto; linarith)

lemma timedelta_boundary:
  fixes S D :: int
  assumes "0 \<le> S" and "S \<le> 86400"
  shows "timedelta (\<lfloor>real_of_int S / 86400 + real_of_int D\<rfloor> - 1)
           (frac (real_of_int S / 86400 + real_of_int D) * 86400)
         = (D - 1) * us_per_day + S * 1000000"
proof (cases "S = 86400")
  case True
  then have "real_of_int S / 86400 + real_of_int D = real_of_int (D + 1)"
    by simp
  then have "\<lfloor>real_of_int S / 86400 + real_of_int D\<rfloor> = D + 1"
    and "frac (real_of_int S / 86400 + real_of_int D) = 0"
    by (simp_all only: floor_of_int frac_of_int)
  with True show ?thesis
    by (simp add: timedelta_def round_to_long_def us_per_day_def)
next
  case False
  with assms have S: "0 \<le> real_of_int S / 86400" "real_of_int S / 86400 < 1"
    by simp_all
  then have fl: "\<lfloor>real_of_int S / 86400 + real_of_int D\<rfloor> = D"
    by (intro floor_unique) simp_all
  then have "frac (real_of_int S / 86400 + real_of_int D) * 86400 = real_of_int S"
    by (simp add: frac_def)
  moreover have "round_to_long (real_of_int S * 1000000) = S * 1000000"
    using round_to_long_of_int [of "S * 1000000"] by simp
  ultimately show ?thesis
    by (simp add: timedelta_def fl)
qed

lemma end_second_bounds:
  assumes "1 \<le> I"
  shows "0 \<le> end_second d I" and "real_of_int (end_second d I) \<le> frac d * 86400"
    and "end_second d I < 86400" and "frac d * 86400 < real_of_int (end_second d I + I)"
proof -
  let ?sec = "frac d * 86400"
  let ?q = "\<lfloor>?sec / real_of_int I\<rfloor>"
  from assms have I: "0 < real_of_int I" by simp
  have sec: "0 \<le> ?sec" "?sec < 86400"
    using frac_ge_0 [of d] frac_lt_1 [of d] by simp_all
  have "0 \<le> ?sec / real_of_int I"
    using sec I by simp
  then have q0: "0 \<le> ?q" by simp
  have lo: "real_of_int ?q * real_of_int I \<le> ?sec"
    using of_int_floor_le [of "?sec / real_of_int I"]
      pos_le_divide_eq [OF I, of "real_of_int ?q" ?sec] by blast
  have hi: "?sec < (real_of_int ?q + 1) * real_of_int I"
    using floor_correct [of "?sec / real_of_int I"]
      pos_divide_less_eq [OF I, of ?sec "real_of_int ?q + 1"] by simp
  show "0 \<le> end_second d I"
    using q0 assms by (simp add: end_second_def)
  show le: "real_of_int (end_second d I) \<le> frac d * 86400"
    using lo by (simp add: end_second_def)
  from le sec have "real_of_int (end_second d I) < real_of_int 86400" by simp
  then show "end_second d I < 86400" by (simp only: of_int_less_iff)
  show "frac d * 86400 < real_of_int (end_second d I + I)"
    using hi by (simp add: end_second_def algebra_simps)
qed

lemma start_second_bounds:
  assumes "1 \<le> I"
  shows "0 \<le> start_second d I" and "start_second d I \<le> 86400"
  using end_second_bounds(1,3) [OF assms, of d] assms
  by (auto simp: start_second_def Let_def)

lemma starttime_raw_eq:
  "starttime_raw d I
   = real_of_int (if I < 86400 then end_second d I + I else end_second d I)"
  by (simp add: starttime_raw_def end_second_def Let_def)

lemma numeral_less_real_of_int: "(86400 < real_of_int k) = (86400 < k)"
proof -
  have "(86400 < real_of_int k) = (real_of_int 86400 < real_of_int k)" by simp
  also have "\<dots> = (86400 < k)" by (simp only: of_int_less_iff)
  finally show ?thesis .
qed

lemma starttime_of_eq:
  "starttime_of d I = real_of_int (start_second d I)"
  unfolding starttime_of_def starttime_raw_eq start_second_def Let_def
    numeral_less_real_of_int
  by simp

lemma startdate_of_eq:
  assumes "1 \<le> I"
  shows "startdate_of yyyy doytime I =
     bindE (getitem doytime 0) (\<lambda>d0.
     bindE (getitem yyyy 0) (\<lambda>y0.
     bindE (datetime_jan1 y0) (\<lambda>jan1.
       datetime_add jan1 ((\<lfloor>d0\<rfloor> - 1) * us_per_day + start_second d0 I * 1000000))))"
proof (cases "getitem doytime 0")
  case (Inl err)
  then show ?thesis by (simp add: startdate_of_def bindE_def)
next
  case (Inr d0)
  then have "0 < length doytime" by (simp add: getitem_Inr)
  then have "length doytime - 1 < length doytime" by simp
  then have last: "getitem doytime (length doytime - 1) = Inr (doytime ! (length doytime - 1))"
    by (simp only: getitem_def if_True)
  have "timedelta (\<lfloor>start_of d0 I\<rfloor> - 1) (frac (start_of d0 I) * 86400)
        = (\<lfloor>d0\<rfloor> - 1) * us_per_day + start_second d0 I * 1000000"
    unfolding start_of_def starttime_of_eq
    using start_second_bounds [OF assms, of d0] by (intro timedelta_boundary) auto
  with Inr last assms show ?thesis
    by (simp add: startdate_of_def bindE_def Let_def split: sum.splits)
qed

lemma enddate_of_eq:
  assumes "1 \<le> I"
  shows "enddate_of yyyy doytime I =
     bindE (getitem doytime (length doytime - 1)) (\<lambda>dl.
     bindE (getitem yyyy (length yyyy - 1)) (\<lambda>yl.
     bindE (datetime_jan1 yl) (\<lambda>jan1.
       datetime_add jan1 ((\<lfloor>dl\<rfloor> - 1) * us_per_day + end_second dl I * 1000000))))"
proof -
  have "timedelta (\<lfloor>end_of dl I\<rfloor> - 1) (frac (end_of dl I) * 86400)
        = (\<lfloor>dl\<rfloor> - 1) * us_per_day + end_second dl I * 1000000" for dl
  proof -
    have "end_of dl I = real_of_int (end_second dl I) / 86400 + real_of_int \<lfloor>dl\<rfloor>"
      by (simp add: end_of_def end_second_def Let_def)
    then show ?thesis
      using end_second_bounds(1,3) [OF assms, of dl]
      by (simp only:) (intro timedelta_boundary, auto)
  qed
  then show ?thesis
    by (simp add: enddate_of_def Let_def)
qed

lemma datetime_add_Inr: "datetime_add t d = Inr t' \<Longrightarrow> t' = t + d"
  by (auto simp: datetime_add_def split: if_splits)

lemma days_before_year_bounds:
  assumes "1 \<le> y" and "y \<le> 9998"
  shows "0 \<le> days_before_year y" and "days_before_year y \<le> 3651329"
proof -
  have "days_before_year 1 = 0" "days_before_year 9998 = 3651329"
    by (simp_all add: days_before_year_def)
  with dby_mono [OF assms(1)] dby_mono [OF assms(2)]
  show "0 \<le> days_before_year y" "days_before_year y \<le> 3651329"
    by simp_all
qed

lemma single_event_boundaries:
  assumes "1 \<le> y" and "y \<le> 9998" and "1 \<le> d" and "d < 367" and "1 \<le> I"
  shows "\<exists>s e. startdate_of [y] [d] I = Inr s \<and> enddate_of [y] [d] I = Inr e"
proof -
  note b = days_before_year_bounds [OF assms(1,2)]
  from assms(3) have lo: "1 \<le> \<lfloor>d\<rfloor>" by (simp add: le_floor_iff)
  from assms(4) have "\<lfloor>d\<rfloor> < 367" by (simp add: floor_less_iff)
  then have hi: "\<lfloor>d\<rfloor> \<le> 366" by simp
  note s = start_second_bounds [OF assms(5), of d]
  note e = end_second_bounds(1,3) [OF assms(5), of d]
  have jan1: "datetime_jan1 y = Inr ((days_before_year y + 1) * us_per_day)"
    using assms(1,2) by (simp add: datetime_jan1_def)
  have range: "datetime_min \<le> (days_before_year y + 1) * us_per_day
          + ((\<lfloor>d\<rfloor> - 1) * us_per_day + k * 1000000)
      \<and> (days_before_year y + 1) * us_per_day
          + ((\<lfloor>d\<rfloor> - 1) * us_per_day + k * 1000000) \<le> datetime_max"
    if k: "0 \<le> k" "k \<le> 86400" for k
  proof -
    define f where "f = \<lfloor>d\<rfloor>"
    define n where "n = days_before_year y"
    from lo hi b have "1 \<le> f" "f \<le> 366" "0 \<le> n" "n \<le> 3651329"
      by (simp_all only: f_def n_def)
    with k have "86400000000 \<le> (n + 1) * 86400000000 + ((f - 1) * 86400000000 + k * 1000000)"
      and "(n + 1) * 86400000000 + ((f - 1) * 86400000000 + k * 1000000)
           \<le> 3652059 * 86400000000 + (86400000000 - 1)"
      by simp_all
    then show ?thesis
      by (simp only: f_def n_def datetime_min_def datetime_max_def us_per_day_def)
  qed
  from range [OF s] range [of "end_second d I"] e jan1 show ?thesis
    by (simp add: startdate_of_eq [OF assms(5)] enddate_of_eq [OF assms(5)] bindE_def
        getitem_def datetime_add_def)
qed

text \<open>
  Claim C10. A single event record gives three empty sequences, whenever both boundaries
  are representable, as they are for every year from 1 to 9998 and every day of the year
  from 1 up to 367 (\<open>single_event_boundaries\<close>): for an interval below 86400 seconds the
  start boundary is strictly after the end boundary, for 86400 seconds the two coincide,
  and the sweep emits no row.
\<close>

theorem single_event_no_rows:
  assumes "valid_interval interval"
    and "startdate_of [y] [d] (normalize_interval interval) = Inr s"
    and "enddate_of [y] [d] (normalize_interval interval) = Inr e"
  shows "event2time [y] [d] [x] method interval = Inr ([], [], [])
    \<and> (normalize_interval interval < 86400 \<longrightarrow> e < s)
    \<and> (normalize_interval interval = 86400 \<longrightarrow> s = e)
    \<and> normalize_interval interval \<le> 86400"
proof -
  let ?I = "normalize_interval interval"
  from assms(1) have I: "1 \<le> ?I" by (rule valid_interval_pos)
  have I': "?I \<le> 86400" by (rule normalize_interval_le)
  from assms(2) obtain jan1 where jan1: "datetime_jan1 y = Inr jan1"
    and s: "s = jan1 + ((\<lfloor>d\<rfloor> - 1) * us_per_day + start_second d ?I * 1000000)"
    by (auto simp: startdate_of_eq [OF I] bindE_def getitem_def dest: datetime_add_Inr
        split: sum.splits)
  from assms(3) jan1 have e: "e = jan1 + ((\<lfloor>d\<rfloor> - 1) * us_per_day + end_second d ?I * 1000000)"
    by (auto simp: enddate_of_eq [OF I] bindE_def getitem_def dest: datetime_add_Inr
        split: sum.splits)
  note b = end_second_bounds [OF I, of d]
  have lt: "end_second d ?I < start_second d ?I" if "?I < 86400"
    using that b(3) I by (auto simp: start_second_def Let_def)
  have eq: "start_second d ?I = end_second d ?I" if "?I = 86400"
    using that b(3) by (auto simp: start_second_def Let_def)
  from I' lt eq have "end_second d ?I \<le> start_second d ?I"
    by (cases "?I = 86400") auto
  with s e have "\<not> s < e" by simp
  then have "event2time [y] [d] [x] method interval = Inr ([], [], [])"
    using assms(2,3) by (simp add: event2time_def Let_def bindE_def outer_loop_stop)
  with s e lt eq I' show ?thesis
    by auto
qed

section \<open>Conservation and normalisation\<close>

lemma filter_upt_prefix:
  "(\<forall>i<n. P i \<longleftrightarrow> i < j) \<Longrightarrow> j \<le> n \<Longrightarrow> filter P [0..<n] = [0..<j]"
proof (induction n)
  case 0
  then show ?case by simp
next
  case (Suc n)
  show ?case
  proof (cases "j = Suc n")
    case True
    with Suc.prems have "\<forall>i<Suc n. P i" by simp
    then have "filter P [0..<Suc n] = [0..<Suc n]"
      by (intro filter_True) auto
    with True show ?thesis by simp
  next
    case False
    with Suc.prems have j: "j \<le> n" by simp
    with Suc.prems have "\<not> P n" by auto
    moreover from Suc.prems have "\<forall>i<n. P i \<longleftrightarrow> i < j" by simp
    ultimately show ?thesis using Suc.IH j by simp
  qed
qed

lemma valid_input_times:
  assumes "valid_input yyyy doytime X"
  defines "ts \<equiv> map projr (event_times yyyy doytime)"
  shows "\<forall>i<length yyyy. checkdate_at yyyy doytime i = Inr (ts ! i)"
    and "\<forall>i k. i \<le> k \<and> k < length yyyy \<longrightarrow> ts ! i \<le> ts ! k"
proof -
  have len: "length ts = length yyyy"
    by (simp add: ts_def event_times_def)
  show "\<forall>i<length yyyy. checkdate_at yyyy doytime i = Inr (ts ! i)"
  proof (intro allI impI)
    fix i assume i: "i < length yyyy"
    then have "event_times yyyy doytime ! i = checkdate_at yyyy doytime i"
      by (simp add: event_times_def)
    moreover from assms(1) i have "\<not> isl (event_times yyyy doytime ! i)"
      by (simp add: valid_input_def list_all_length event_times_def)
    ultimately show "checkdate_at yyyy doytime i = Inr (ts ! i)"
      using i by (cases "checkdate_at yyyy doytime i") (simp_all add: ts_def event_times_def)
  qed
  from assms(1) have "sorted ts"
    by (simp add: valid_input_def ts_def)
  then show "\<forall>i k. i \<le> k \<and> k < length yyyy \<longrightarrow> ts ! i \<le> ts ! k"
    using len by (auto intro: sorted_nth_mono)
qed

text \<open>
  Claim C1, amended. In sum mode, for a valid input on which the call returns, the sum of
  the emitted aggregates is the sum of \<open>X[i + 1]\<close> over the events \<open>i\<close> whose absolute time
  is strictly before the last emitted boundary, and zero when no row is emitted: every
  consumed event contributes the value of its successor, and the events before the start
  boundary are consumed by the first bucket.
\<close>

theorem sum_of_rows_is_sum_of_successors:
  assumes "valid_input yyyy doytime X" and "valid_interval interval"
    and "normalize_method method = ''sum''"
    and "event2time yyyy doytime X method interval = Inr (YEAR, DECTIME, Y)"
    and "startdate_of yyyy doytime (normalize_interval interval) = Inr s"
  shows "sum_list Y =
     (if Y = [] then 0
      else sum_list (map (\<lambda>i. X ! (i + 1))
             (events_before yyyy doytime
                (s + int (length Y) * (normalize_interval interval * 1000000)))))"
proof (cases "Y = []")
  case True
  then show ?thesis by simp
next
  case False
  let ?I = "normalize_interval interval"
  from assms(2) have I: "0 < ?I"
    using valid_interval_pos [of interval] by simp
  from assms(4,5) obtain e bs where
    sw: "sweep yyyy doytime X ?I e s 0 = Inr bs"
    and Y: "Y = map (\<lambda>(b, j, c, p). if normalize_method method = ''sum'' then p
                          else if c = 0 then - 9999 else p / real c) bs"
    by (auto simp: event2time_Inr_iff concat_aggregate)
  from Y assms(3) have Yp: "Y = map (\<lambda>b. snd (snd (snd b))) bs"
    by (auto simp: case_prod_beta)
  from False Y have bs: "bs \<noteq> []" by auto
  define ts where "ts = map projr (event_times yyyy doytime)"
  note t = valid_input_times [OF assms(1), folded ts_def]
  have "\<forall>i<0. ts ! i < s" by simp
  from sweep_last_events [OF sw bs I t(1) t(2) this]
  have L: "last_index 0 bs < length yyyy"
    and ev: "\<forall>i<length yyyy. ts ! i < fst (last bs) \<longleftrightarrow> i < last_index 0 bs"
    by auto
  from bs have lb: "length bs - 1 < length bs" by simp
  from bs have "int (length bs - 1) + 1 = int (length bs)"
    by (cases bs) simp_all
  with sweep_boundaries [OF sw lb] bs
  have last: "fst (last bs) = s + int (length bs) * (?I * 1000000)"
    by (simp add: last_conv_nth)
  let ?B = "s + int (length Y) * (?I * 1000000)"
  from Yp have "length Y = length bs" by simp
  with last have B: "fst (last bs) = ?B" by simp
  have "events_before yyyy doytime ?B = [0..<last_index 0 bs]"
    unfolding events_before_def
  proof (rule filter_upt_prefix)
    show "\<forall>i<length yyyy.
       (case checkdate_at yyyy doytime i of Inl e \<Rightarrow> False | Inr t \<Rightarrow> t < ?B)
       = (i < last_index 0 bs)"
      using t(1) ev B by simp
    show "last_index 0 bs \<le> length yyyy"
      using L by simp
  qed
  moreover have "map (\<lambda>i. X ! (i + 1)) [0..<last_index 0 bs]
      = map (\<lambda>i. X ! i) [Suc 0..<Suc (last_index 0 bs)]"
    by (simp add: map_Suc_upt [symmetric] del: upt_Suc)
  moreover from sweep_total [OF sw]
  have "sum_list (map (\<lambda>b. snd (snd (snd b))) bs)
         = sum_list (map (\<lambda>i. X ! i) [Suc 0..<Suc (last_index 0 bs)])"
    by simp
  ultimately show ?thesis
    using False Yp by simp
qed

text \<open>
  Claim C8. A method other than \<open>sum\<close> and \<open>avg\<close> gives the result of method \<open>sum\<close>, an
  interval above 86400 gives the result of interval 86400, and the second of the day of the
  start boundary is never above 86400: a value above it is replaced by 86400. Each of the
  three prints its warning, and none of them is an error of its own.
\<close>

theorem warnings_never_errors:
  "(method \<noteq> ''sum'' \<and> method \<noteq> ''avg'' \<longrightarrow>
      event2time yyyy doytime X method interval = event2time yyyy doytime X ''sum'' interval
      \<and> UnknownMethod \<in> set (event2time_warnings doytime method interval))
   \<and> (86400 < i \<longrightarrow>
      event2time yyyy doytime X method (Some i) = event2time yyyy doytime X method (Some 86400)
      \<and> IntervalTooLarge \<in> set (event2time_warnings doytime method (Some i)))
   \<and> starttime_of d0 I \<le> 86400
   \<and> (86400 < starttime_raw d0 I \<longrightarrow> starttime_of d0 I = 86400)
   \<and> (doytime \<noteq> [] \<and> 86400 < starttime_raw (doytime ! 0) (normalize_interval interval) \<longrightarrow>
        StartPastMidnight \<in> set (event2time_warnings doytime method interval))"
  by (auto simp: event2time_def normalize_method_def normalize_interval_def Let_def
      event2time_warnings_def starttime_of_def getitem_def)

section \<open>An equidistant series\<close>

lemma checkdate_at_grid:
  assumes "checkdate_at yyyy doytime i = Inr t"
    and "real_of_int (end_second (doytime ! i) I) = frac (doytime ! i) * 86400"
  shows "i < length yyyy" and "i < length doytime"
    and "datetime_jan1 (yyyy ! i) = Inr ((days_before_year (yyyy ! i) + 1) * us_per_day)"
    and "t = (days_before_year (yyyy ! i) + \<lfloor>doytime ! i\<rfloor>) * us_per_day
             + end_second (doytime ! i) I * 1000000"
    and "datetime_min \<le> t" and "t \<le> datetime_max"
proof -
  from assms(1) show len: "i < length yyyy" "i < length doytime"
    by (auto dest: checkdate_at_Inr_length)
  from assms(1) len show j: "datetime_jan1 (yyyy ! i) = Inr ((days_before_year (yyyy ! i) + 1) * us_per_day)"
    by (auto simp: checkdate_at_def bindE_def getitem_def datetime_jan1_def split: if_splits)
  have "round_to_long (frac (doytime ! i) * 86400 * 1000000)
      = end_second (doytime ! i) I * 1000000"
    using round_to_long_of_int [of "end_second (doytime ! i) I * 1000000"] assms(2)
    by simp
  then have td: "timedelta (\<lfloor>doytime ! i\<rfloor> - 1) (frac (doytime ! i) * 86400)
      = (\<lfloor>doytime ! i\<rfloor> - 1) * us_per_day + end_second (doytime ! i) I * 1000000"
    by (simp add: timedelta_def)
  from assms(1) len j td
  have add: "datetime_add ((days_before_year (yyyy ! i) + 1) * us_per_day)
      ((\<lfloor>doytime ! i\<rfloor> - 1) * us_per_day + end_second (doytime ! i) I * 1000000) = Inr t"
    by (simp add: checkdate_at_def bindE_def getitem_def)
  then show "t = (days_before_year (yyyy ! i) + \<lfloor>doytime ! i\<rfloor>) * us_per_day
             + end_second (doytime ! i) I * 1000000"
    by (auto simp: datetime_add_def algebra_simps split: if_splits)
  from add show "datetime_min \<le> t" "t \<le> datetime_max"
    by (auto simp: datetime_add_def split: if_splits)
qed

lemma doy_roundtrip:
  assumes "checkdate_at yyyy doytime i = Inr t"
    and "real_of_int (end_second (doytime ! i) I) = frac (doytime ! i) * 86400"
    and "1 \<le> I" and "I < 86400"
    and "1 \<le> doytime ! i" and "doytime ! i < 1 + real_of_int (days_in_year (yyyy ! i))"
  shows "year_of t = yyyy ! i" and "dtime_of I t = doytime ! i"
proof -
  let ?y = "yyyy ! i" and ?d = "doytime ! i"
  let ?E = "end_second ?d I"
  note g = checkdate_at_grid [OF assms(1,2)]
  note b = end_second_bounds [OF assms(3), of ?d]
  have E: "0 \<le> ?E * 1000000" "?E * 1000000 < us_per_day"
    using b(1,3) by (simp_all add: us_per_day_def)
  have t: "t = us_per_day * (days_before_year ?y + \<lfloor>?d\<rfloor>) + ?E * 1000000"
    using g(4) by (simp add: algebra_simps)
  have ord: "toordinal t = days_before_year ?y + \<lfloor>?d\<rfloor>"
    unfolding toordinal_def using t E by (intro int_div_pos_eq [where r = "?E * 1000000"]) auto
  have "t mod us_per_day = ?E * 1000000"
    using t E by (intro int_mod_pos_eq [where q = "days_before_year ?y + \<lfloor>?d\<rfloor>"]) auto
  then have sec: "second_of_day t = ?E"
    by (simp add: second_of_day_def)
  from assms(5) have lo: "1 \<le> \<lfloor>?d\<rfloor>" by (simp add: le_floor_iff)
  from assms(6) have "?d < real_of_int (1 + days_in_year ?y)" by simp
  then have "\<lfloor>?d\<rfloor> < 1 + days_in_year ?y" by (simp only: floor_less_iff)
  then have hi: "\<lfloor>?d\<rfloor> \<le> days_in_year ?y" by simp
  have "ord2year (days_before_year ?y + \<lfloor>?d\<rfloor>) = ?y"
    using lo hi dby_step [of ?y] by (intro ord2year_unique) (auto simp: days_in_year_def)
  with ord show y: "year_of t = ?y"
    by (simp add: year_of_def)
  have yd: "yday t = \<lfloor>?d\<rfloor>"
    by (simp add: yday_def ord y)
  have fr: "real_of_int ?E / 86400 = frac ?d"
    using assms(2) by simp
  have "dtime_of I t = real_of_int \<lfloor>?d\<rfloor> + real_of_int ?E / 86400"
    using assms(4) by (simp add: dtime_of_def Let_def sec yd)
  also have "\<dots> = real_of_int \<lfloor>?d\<rfloor> + frac ?d"
    by (simp only: fr)
  also have "\<dots> = ?d"
    by (simp add: frac_def)
  finally show "dtime_of I t = ?d" .
qed


lemma equidistant_times:
  assumes "equidistant yyyy doytime I t0" and "i < length yyyy"
  shows "checkdate_at yyyy doytime i = Inr (t0 + int i * (I * 1000000))"
proof -
  from assms(2) have "event_times yyyy doytime ! i = checkdate_at yyyy doytime i"
    by (simp add: event_times_def)
  moreover from assms have "event_times yyyy doytime ! i = Inr (t0 + int i * (I * 1000000))"
    by (simp add: equidistant_def)
  ultimately show ?thesis by simp
qed

lemma grid_start_second:
  assumes "1 \<le> I" and "I < 86400" and "86400 mod I = 0"
  shows "start_second d I = end_second d I + I"
proof -
  let ?q = "\<lfloor>frac d * 86400 / real_of_int I\<rfloor>"
  have E: "end_second d I = ?q * I" by (simp add: end_second_def)
  from assms(3) have m: "86400 = (86400 div I) * I"
    using div_mult_mod_eq [of 86400 I] by simp
  from end_second_bounds(3) [OF assms(1), of d] E m
  have "?q * I < (86400 div I) * I" by simp
  with assms(1) have "?q < 86400 div I"
    by (simp add: mult_less_cancel_right)
  then have "?q + 1 \<le> 86400 div I" by simp
  with assms(1) have "(?q + 1) * I \<le> (86400 div I) * I"
    by (intro mult_right_mono) simp_all
  with m E have "end_second d I + I \<le> 86400"
    by (simp add: algebra_simps)
  with assms(2) show ?thesis
    by (simp add: start_second_def Let_def)
qed

lemma equidistant_boundaries:
  assumes len: "length doytime = length yyyy" and n: "2 \<le> length yyyy"
    and I: "1 \<le> I" "I < 86400" "86400 mod I = 0"
    and eq: "equidistant yyyy doytime I t0" and grid: "on_grid doytime I"
  shows "startdate_of yyyy doytime I = Inr (t0 + I * 1000000)"
    and "enddate_of yyyy doytime I = Inr (t0 + int (length yyyy - 1) * (I * 1000000))"
proof -
  let ?n = "length yyyy"
  have g: "real_of_int (end_second (doytime ! i) I) = frac (doytime ! i) * 86400"
    if "i < ?n" for i
    using grid that len by (simp add: on_grid_def list_all_length)
  from n have i0: "0 < ?n" and i1: "1 < ?n" and il: "?n - 1 < ?n" by linarith+
  note c0 = checkdate_at_grid [OF equidistant_times [OF eq i0] g [OF i0]]
  note c1 = checkdate_at_grid [OF equidistant_times [OF eq i1] g [OF i1]]
  note cl = checkdate_at_grid [OF equidistant_times [OF eq il] g [OF il]]
  from c0(4) have t0: "t0 = (days_before_year (yyyy ! 0) + \<lfloor>doytime ! 0\<rfloor>) * us_per_day
             + end_second (doytime ! 0) I * 1000000"
    by simp
  have sum: "(days_before_year (yyyy ! 0) + 1) * us_per_day
        + ((\<lfloor>doytime ! 0\<rfloor> - 1) * us_per_day + start_second (doytime ! 0) I * 1000000)
      = t0 + I * 1000000"
    unfolding grid_start_second [OF I] t0 by (simp add: algebra_simps)
  from c1(5,6) have range: "datetime_min \<le> t0 + I * 1000000" "t0 + I * 1000000 \<le> datetime_max"
    by simp_all
  show "startdate_of yyyy doytime I = Inr (t0 + I * 1000000)"
    using i0 len c0(3) sum range
    by (simp add: startdate_of_eq [OF I(1)] bindE_def getitem_def datetime_add_def)
  have suml: "(days_before_year (yyyy ! (?n - 1)) + 1) * us_per_day
        + ((\<lfloor>doytime ! (?n - 1)\<rfloor> - 1) * us_per_day
           + end_second (doytime ! (?n - 1)) I * 1000000)
      = t0 + int (?n - 1) * (I * 1000000)"
    using cl(4) by (simp add: algebra_simps)
  show "enddate_of yyyy doytime I = Inr (t0 + int (?n - 1) * (I * 1000000))"
    using il len cl(3,5,6) suml
    by (simp add: enddate_of_eq [OF I(1)] bindE_def getitem_def datetime_add_def)
qed


lemma checkdate_at_range:
  "checkdate_at yyyy doytime i = Inr t \<Longrightarrow> datetime_min \<le> t \<and> t \<le> datetime_max"
  by (auto simp: checkdate_at_def bindE_def datetime_add_def split: sum.splits if_splits)

lemma inner_loop_one:
  assumes "cd < B" and "checkdate_at yyyy doytime (j + 1) = Inr cd'" and "\<not> cd' < B"
    and "j + 1 < length X"
  shows "inner_loop yyyy doytime X B j cd c p = Inr (j + 1, c + 1, p + X ! (j + 1))"
  using assms by (simp add: inner_loop_step inner_loop_stop getitem_def)

lemma equidistant_sweep_tail:
  assumes times: "\<forall>i<n. checkdate_at yyyy doytime i = Inr (t0 + int i * (I * 1000000))"
    and years: "\<forall>i<n. 1900 \<le> year_of (t0 + int i * (I * 1000000))"
    and I: "0 < I" and len: "length X = n"
  shows "k \<le> n - 1 \<Longrightarrow> 1 \<le> n \<Longrightarrow>
    sweep yyyy doytime X I (t0 + int (n - 1) * (I * 1000000)) (t0 + int k * (I * 1000000)) k
    = Inr (map (\<lambda>i. (t0 + int (i + 1) * (I * 1000000), i + 1, 1, X ! (i + 1))) [k..<n - 1])"
proof (induction "n - 1 - k" arbitrary: k)
  case 0
  then have "k = n - 1" by simp
  then show ?case by (simp add: sweep_stop)
next
  case (Suc m)
  let ?D = "I * 1000000"
  let ?row = "\<lambda>i. (t0 + int (i + 1) * ?D, i + 1, 1 :: nat, X ! (i + 1))"
  from Suc.hyps(2) have k: "k < n - 1" "k + 1 < n" "k < n" by linarith+
  from I have D: "0 < ?D" by simp
  from k(1) have "int k < int (n - 1)" by simp
  with D have guard: "I \<noteq> 0 \<and> t0 + int k * ?D < t0 + int (n - 1) * ?D"
    using I by (simp add: mult_less_cancel_right)
  from times k have cd: "checkdate_at yyyy doytime k = Inr (t0 + int k * ?D)"
    and cd': "checkdate_at yyyy doytime (k + 1) = Inr (t0 + int (k + 1) * ?D)"
    by simp_all
  have nxt: "t0 + int k * ?D + ?D = t0 + int (k + 1) * ?D"
    by (simp add: algebra_simps)
  from checkdate_at_range [OF cd'] nxt
  have add: "datetime_add (t0 + int k * ?D) (timedelta 0 (real_of_int I))
      = Inr (t0 + int (k + 1) * ?D)"
    by (simp add: datetime_add_def timedelta_seconds_int)
  have lt: "t0 + int k * ?D < t0 + int (k + 1) * ?D"
    using D by (simp add: algebra_simps)
  have "\<not> t0 + int (k + 1) * ?D < t0 + int (k + 1) * ?D" by simp
  from inner_loop_one [OF lt cd' this, of X 0 0] k len
  have inner: "inner_loop yyyy doytime X (t0 + int (k + 1) * ?D) k (t0 + int k * ?D) 0 0
      = Inr (k + 1, 1, X ! (k + 1))"
    by simp
  from Suc.hyps(2) have "m = n - 1 - (k + 1)" by simp
  from Suc.hyps(1) [OF this] k Suc.prems
  have IH: "sweep yyyy doytime X I (t0 + int (n - 1) * ?D) (t0 + int (k + 1) * ?D) (k + 1)
    = Inr (map ?row [k + 1..<n - 1])"
    by simp
  have upt: "[k..<n - 1] = k # [k + 1..<n - 1]"
    using k(1) by (simp add: upt_conv_Cons)
  from years k(2) have "1900 \<le> year_of (t0 + int (k + 1) * ?D)"
    by blast
  then have sf: "strftime_check (t0 + int (k + 1) * ?D) = Inr ()"
    unfolding strftime_check_def by simp
  have "sweep yyyy doytime X I (t0 + int (n - 1) * ?D) (t0 + int k * ?D) k
      = Inr ((t0 + int (k + 1) * ?D, k + 1, 1, X ! (k + 1)) # map ?row [k + 1..<n - 1])"
    by (simp only: sweep_step [OF guard] cd add inner sf IH sum.case prod.case)
  also have "\<dots> = Inr (map ?row [k..<n - 1])"
    by (simp only: upt list.map)
  finally show ?case .
qed

lemma equidistant_sweep:
  assumes times: "\<forall>i<n. checkdate_at yyyy doytime i = Inr (t0 + int i * (I * 1000000))"
    and years: "\<forall>i<n. 1900 \<le> year_of (t0 + int i * (I * 1000000))"
    and I: "0 < I" and len: "length X = n" and n: "3 \<le> n"
  shows "sweep yyyy doytime X I (t0 + int (n - 1) * (I * 1000000)) (t0 + I * 1000000) 0
    = Inr ((t0 + 2 * (I * 1000000), 2, 2, X ! 1 + X ! 2)
           # map (\<lambda>i. (t0 + int (i + 1) * (I * 1000000), i + 1, 1, X ! (i + 1))) [2..<n - 1])"
proof -
  let ?D = "I * 1000000"
  let ?row = "\<lambda>i. (t0 + int (i + 1) * ?D, i + 1, 1 :: nat, X ! (i + 1))"
  let ?B = "t0 + 2 * ?D"
  from I have D: "0 < ?D" by simp
  from n have "2 \<le> int (n - 1)" by simp
  with D have "1 * ?D < int (n - 1) * ?D"
    by (intro mult_strict_right_mono) simp_all
  with I have guard: "I \<noteq> 0 \<and> t0 + ?D < t0 + int (n - 1) * ?D"
    by simp
  from times n have cd0: "checkdate_at yyyy doytime 0 = Inr t0"
    and cd1: "checkdate_at yyyy doytime (0 + 1) = Inr (t0 + ?D)"
    and cd2: "checkdate_at yyyy doytime (0 + 1 + 1) = Inr ?B"
    by simp_all
  from checkdate_at_range [OF cd2]
  have add: "datetime_add (t0 + ?D) (timedelta 0 (real_of_int I)) = Inr ?B"
    by (simp add: datetime_add_def timedelta_seconds_int)
  have lt0: "t0 < ?B" and lt1: "t0 + ?D < ?B" and ge2: "\<not> ?B < ?B"
    using D by simp_all
  from n len have x1: "getitem X (0 + 1) = Inr (X ! (0 + 1))"
    and l2: "0 + 1 + 1 < length X"
    by (simp_all add: getitem_def)
  have "inner_loop yyyy doytime X ?B 0 t0 0 0
      = inner_loop yyyy doytime X ?B (0 + 1) (t0 + ?D) (0 + 1) (0 + X ! (0 + 1))"
    by (simp only: inner_loop_step [OF lt0] cd1 x1 sum.case)
  also have "\<dots> = Inr (0 + 1 + 1, 0 + 1 + 1, 0 + X ! (0 + 1) + X ! (0 + 1 + 1))"
    by (rule inner_loop_one [OF lt1 cd2 ge2 l2])
  also have "\<dots> = Inr (2, 2, X ! 1 + X ! 2)"
    by (simp add: numeral_2_eq_2)
  finally have inner: "inner_loop yyyy doytime X ?B 0 t0 0 0 = Inr (2, 2, X ! 1 + X ! 2)" .
  from equidistant_sweep_tail [OF times years I len, of 2] n
  have tail: "sweep yyyy doytime X I (t0 + int (n - 1) * ?D) ?B 2 = Inr (map ?row [2..<n - 1])"
    by simp
  from years n have "1900 \<le> year_of (t0 + int 2 * ?D)"
    by (metis numeral_3_eq_3 Suc_le_lessD numeral_2_eq_2 lessI less_le_trans)
  then have sf: "strftime_check ?B = Inr ()"
    unfolding strftime_check_def by simp
  show ?thesis
    by (simp only: sweep_step [OF guard] cd0 add inner sf tail sum.case prod.case)
qed


lemma drop_as_map: "drop k xs = map (\<lambda>i. xs ! (i + k)) [0..<length xs - k]"
  by (simp add: list_eq_iff_nth_eq add.commute)

lemma equidistant_buckets:
  fixes t0 D :: int and x12 :: real and X :: "real list"
  assumes "3 \<le> n"
  shows "(t0 + 2 * D, 2 :: nat, 2 :: nat, x12)
           # map (\<lambda>i. (t0 + int (i + 1) * D, i + 1, 1, X ! (i + 1))) [2..<n - 1]
    = map (\<lambda>i. (t0 + int (i + 2) * D, i + 2, if i = 0 then 2 else 1,
                  if i = 0 then x12 else X ! (i + 2))) [0..<n - 2]"
  using assms
  by (auto simp: list_eq_iff_nth_eq nth_Cons algebra_simps split: nat.splits)


lemma map_head_drop:
  fixes X :: "real list"
  assumes "3 \<le> length X"
  shows "map (\<lambda>i. if i = 0 then a else X ! (i + 2)) [0..<length X - 2] = a # drop 3 X"
  using assms
  by (auto simp: list_eq_iff_nth_eq nth_Cons numeral_3_eq_3 split: nat.splits)

text \<open>
  Claim C5, amended. An equidistant series of at least three events, in years from 1900
  on, on the grid of an interval that is below 86400 seconds and divides the day,
  resampled at that interval, comes back from its third event on: the rows carry the years and the timestamps of the
  events from the third on, and from the second row on the aggregate is the value of the
  event with that timestamp, in both modes. The first row aggregates the values of the
  second and the third event, as their sum or as their mean; the first two events have no
  row of their own.
\<close>

theorem equidistant_series_resampled:
  assumes len: "length doytime = length yyyy" "length X = length yyyy"
    and n: "3 \<le> length yyyy"
    and I: "1 \<le> I" "I < 86400" "86400 mod I = 0"
    and eq: "equidistant yyyy doytime I t0" and grid: "on_grid doytime I"
    and cal: "doy_in_year yyyy doytime" and yrs: "\<forall>y\<in>set yyyy. 1900 \<le> y"
  shows "event2time yyyy doytime X method (Some I)
    = Inr (drop 2 yyyy, drop 2 doytime,
           (if normalize_method method = ''sum'' then X ! 1 + X ! 2 else (X ! 1 + X ! 2) / 2)
           # drop 3 X)"
proof -
  let ?n = "length yyyy"
  let ?D = "I * 1000000"
  let ?m = "normalize_method method"
  from I have NI: "normalize_interval (Some I) = I"
    by (simp add: normalize_interval_def)
  from I have I0: "0 < I" by simp
  from n have n2: "2 \<le> ?n" by simp
  note bd = equidistant_boundaries [OF len(1) n2 I eq grid]
  have times: "\<forall>i<?n. checkdate_at yyyy doytime i = Inr (t0 + int i * ?D)"
    using equidistant_times [OF eq] by blast
  have row: "year_of (t0 + int i * ?D) = yyyy ! i \<and> dtime_of I (t0 + int i * ?D) = doytime ! i"
    if "i < ?n" for i
  proof -
    from grid that len have g: "real_of_int (end_second (doytime ! i) I) = frac (doytime ! i) * 86400"
      by (simp add: on_grid_def list_all_length)
    from cal that have "1 \<le> doytime ! i"
      and "doytime ! i < 1 + real_of_int (days_in_year (yyyy ! i))"
      by (simp_all add: doy_in_year_def list_all2_conv_all_nth)
    with doy_roundtrip [OF times [rule_format, OF that] g I(1,2)] show ?thesis
      by simp
  qed
  have years: "\<forall>i<?n. 1900 \<le> year_of (t0 + int i * ?D)"
    using row yrs by simp
  define bs where "bs = map (\<lambda>i. (t0 + int (i + 2) * ?D, i + 2, if i = 0 then 2 else (1 :: nat),
                  if i = 0 then X ! 1 + X ! 2 else X ! (i + 2))) [0..<?n - 2]"
  have sw: "sweep yyyy doytime X I (t0 + int (?n - 1) * ?D) (t0 + ?D) 0 = Inr bs"
    unfolding bs_def
    using equidistant_sweep [OF times years I0 len(2) n]
    by (simp only: equidistant_buckets [OF n])
  have row2: "year_of (t0 + int (i + 2) * ?D) = yyyy ! (i + 2)"
    "dtime_of I (t0 + int (i + 2) * ?D) = doytime ! (i + 2)"
    if "i \<in> set [0..<?n - 2]" for i
  proof -
    from that have "i + 2 < ?n" by auto
    from row [OF this] show "year_of (t0 + int (i + 2) * ?D) = yyyy ! (i + 2)"
      "dtime_of I (t0 + int (i + 2) * ?D) = doytime ! (i + 2)"
      by blast+
  qed
  have Y: "map (\<lambda>b. year_of (fst b)) bs = drop 2 yyyy"
  proof -
    have "map (\<lambda>b. year_of (fst b)) bs
        = map (\<lambda>i. year_of (t0 + int (i + 2) * ?D)) [0..<?n - 2]"
      unfolding bs_def by (simp only: map_map comp_def fst_conv)
    also have "\<dots> = map (\<lambda>i. yyyy ! (i + 2)) [0..<?n - 2]"
      by (rule map_cong [OF refl]) (rule row2(1))
    also have "\<dots> = drop 2 yyyy"
      by (simp only: drop_as_map)
    finally show ?thesis .
  qed
  have D: "map (\<lambda>b. dtime_of I (fst b)) bs = drop 2 doytime"
  proof -
    have "map (\<lambda>b. dtime_of I (fst b)) bs
        = map (\<lambda>i. dtime_of I (t0 + int (i + 2) * ?D)) [0..<?n - 2]"
      unfolding bs_def by (simp only: map_map comp_def fst_conv)
    also have "\<dots> = map (\<lambda>i. doytime ! (i + 2)) [0..<?n - 2]"
      by (rule map_cong [OF refl]) (rule row2(2))
    also have "\<dots> = drop 2 doytime"
      by (simp only: drop_as_map len)
    finally show ?thesis .
  qed
  have A: "concat (map (\<lambda>(b, j, c, p). aggregate ?m c p) bs)
      = (if ?m = ''sum'' then X ! 1 + X ! 2 else (X ! 1 + X ! 2) / 2) # drop 3 X"
  proof -
    let ?a = "if ?m = ''sum'' then X ! 1 + X ! 2 else (X ! 1 + X ! 2) / 2"
    have "concat (map (\<lambda>(b, j, c, p). aggregate ?m c p) bs)
        = map (\<lambda>(b, j, c, p). if ?m = ''sum'' then p
                          else if c = 0 then - 9999 else p / real c) bs"
      by (rule concat_aggregate)
    also have "\<dots> = map (\<lambda>i. if i = 0 then ?a else X ! (i + 2)) [0..<?n - 2]"
      unfolding bs_def map_map comp_def
      by (rule map_cong [OF refl]) simp
    also have "\<dots> = ?a # drop 3 X"
      using map_head_drop [of X ?a] n len by simp
    finally show ?thesis .
  qed
  have "\<exists>s e bs. startdate_of yyyy doytime I = Inr s
        \<and> enddate_of yyyy doytime I = Inr e
        \<and> sweep yyyy doytime X I e s 0 = Inr bs
        \<and> drop 2 yyyy = map (\<lambda>b. year_of (fst b)) bs
        \<and> drop 2 doytime = map (\<lambda>b. dtime_of I (fst b)) bs
        \<and> (if ?m = ''sum'' then X ! 1 + X ! 2 else (X ! 1 + X ! 2) / 2) # drop 3 X
            = concat (map (\<lambda>(b, j, c, p). aggregate ?m c p) bs)"
    using bd sw Y [symmetric] D [symmetric] A [symmetric] by blast
  then show ?thesis
    by (simp only: event2time_Inr_iff NI)
qed

section \<open>Runs on concrete inputs\<close>

lemmas boundary_defs = startdate_of_def enddate_of_def start_of_def starttime_of_def
  starttime_raw_def end_of_def bindE_def getitem_def datetime_jan1_def datetime_add_def
  timedelta_def round_to_long_def frac_def us_per_day_def days_before_year_def
  datetime_min_def datetime_max_def Let_def

lemmas checkdate_defs = checkdate_at_def bindE_def getitem_def datetime_jan1_def
  datetime_add_def timedelta_def round_to_long_def frac_def us_per_day_def
  days_before_year_def datetime_min_def datetime_max_def

lemmas sweep_eval = sweep.simps inner_loop.simps timedelta_def round_to_long_def
  datetime_add_def datetime_min_def datetime_max_def us_per_day_def

lemmas run_eval = event2time_Inr_iff event2time_Inl_iff normalize_interval_def
  normalize_method_def aggregate_def

subsection \<open>The documented example\<close>

lemma doctest_checkdates:
  "checkdate_at doctest_yyyy doctest_doytime 0 = Inr 63348004800000000"
  "checkdate_at doctest_yyyy doctest_doytime (Suc 0) = Inr 63348039360000000"
  "checkdate_at doctest_yyyy doctest_doytime (Suc (Suc 0)) = Inr 63348056640000000"
  "getitem doctest_X (Suc 0) = Inr (2 / 5)"
  "getitem doctest_X (Suc (Suc 0)) = Inr 2"
  by (simp_all add: checkdate_defs doctest_yyyy_def doctest_doytime_def doctest_X_def)

lemma doctest_boundaries:
  "startdate_of doctest_yyyy doctest_doytime 3600 = Inr 63348008400000000"
  "enddate_of doctest_yyyy doctest_doytime 3600 = Inr 63348055200000000"
  by (simp_all add: boundary_defs doctest_yyyy_def doctest_doytime_def)

lemma doctest_strftime:
  "strftime_check 63348012000000000 = Inr ()"
  "strftime_check 63348015600000000 = Inr ()"
  "strftime_check 63348019200000000 = Inr ()"
  "strftime_check 63348022800000000 = Inr ()"
  "strftime_check 63348026400000000 = Inr ()"
  "strftime_check 63348030000000000 = Inr ()"
  "strftime_check 63348033600000000 = Inr ()"
  "strftime_check 63348037200000000 = Inr ()"
  "strftime_check 63348040800000000 = Inr ()"
  "strftime_check 63348044400000000 = Inr ()"
  "strftime_check 63348048000000000 = Inr ()"
  "strftime_check 63348051600000000 = Inr ()"
  "strftime_check 63348055200000000 = Inr ()"
  by code_simp+

lemma doctest_sweep:
  "sweep doctest_yyyy doctest_doytime doctest_X 3600
     63348055200000000 63348008400000000 0
   = Inr [(63348012000000000, 1, 1, 2 / 5), (63348015600000000, 1, 0, 0),
          (63348019200000000, 1, 0, 0), (63348022800000000, 1, 0, 0),
          (63348026400000000, 1, 0, 0), (63348030000000000, 1, 0, 0),
          (63348033600000000, 1, 0, 0), (63348037200000000, 1, 0, 0),
          (63348040800000000, 2, 1, 2), (63348044400000000, 2, 0, 0),
          (63348048000000000, 2, 0, 0), (63348051600000000, 2, 0, 0),
          (63348055200000000, 2, 0, 0)]"
  by (simp add: sweep_eval doctest_checkdates doctest_strftime)

lemma doctest_rows:
  "map year_of [63348012000000000, 63348015600000000, 63348019200000000,
     63348022800000000, 63348026400000000, 63348030000000000, 63348033600000000,
     63348037200000000, 63348040800000000, 63348044400000000, 63348048000000000,
     63348051600000000, 63348055200000000]
   = [2008, 2008, 2008, 2008, 2008, 2008, 2008, 2008, 2008, 2008, 2008, 2008, 2008]"
  "map (dtime_of 3600) [63348012000000000, 63348015600000000, 63348019200000000,
     63348022800000000, 63348026400000000, 63348030000000000, 63348033600000000,
     63348037200000000, 63348040800000000, 63348044400000000, 63348048000000000,
     63348051600000000, 63348055200000000]
   = [1843 / 12, 1229 / 8, 461 / 3, 3689 / 24, 615 / 4, 3691 / 24, 923 / 6,
       1231 / 8, 1847 / 12, 3695 / 24, 154, 3697 / 24, 1849 / 12]"
  by code_simp+

lemma doctest_run:
  "event2time doctest_yyyy doctest_doytime doctest_X ''sum'' (Some 3600)
   = Inr ([2008, 2008, 2008, 2008, 2008, 2008, 2008, 2008, 2008, 2008, 2008, 2008, 2008],
      [1843 / 12, 1229 / 8, 461 / 3, 3689 / 24, 615 / 4, 3691 / 24, 923 / 6,
       1231 / 8, 1847 / 12, 3695 / 24, 154, 3697 / 24, 1849 / 12],
      [2 / 5, 0, 0, 0, 0, 0, 0, 0, 2, 0, 0, 0, 0])"
  using doctest_rows
  by (simp add: run_eval doctest_boundaries doctest_sweep)

lemma doctest_valid: "valid_input doctest_yyyy doctest_doytime doctest_X"
  by (simp add: valid_input_def event_times_def checkdate_defs
      doctest_yyyy_def doctest_doytime_def doctest_X_def)

lemma doctest_window: "window_sum doctest_yyyy doctest_doytime doctest_X
     63348008400000000 63348055200000000 = 2 / 5"
  by (simp add: window_sum_def checkdate_defs
      doctest_yyyy_def doctest_doytime_def doctest_X_def)

lemma doctest_events_before:
  "events_before doctest_yyyy doctest_doytime 63348055200000000 = [0, 1]"
  by (simp add: events_before_def checkdate_defs doctest_yyyy_def doctest_doytime_def)


subsection \<open>Daily buckets across the new year\<close>

lemma newyear_checkdates:
  "checkdate_at newyear_yyyy newyear_doytime 0 = Inr 63334785600000000"
  "checkdate_at newyear_yyyy newyear_doytime (Suc 0) = Inr 63334872000000000"
  "getitem newyear_X (Suc 0) = Inr 2"
  by (simp_all add: checkdate_defs newyear_yyyy_def newyear_doytime_def newyear_X_def)

lemma newyear_boundaries:
  "startdate_of newyear_yyyy newyear_doytime 86400 = Inr 63334742400000000"
  "enddate_of newyear_yyyy newyear_doytime 86400 = Inr 63334828800000000"
  by (simp_all add: boundary_defs newyear_yyyy_def newyear_doytime_def)

lemma newyear_strftime:
  "strftime_check 63334828800000000 = Inr ()"
  by code_simp+

lemma newyear_sweep:
  "sweep newyear_yyyy newyear_doytime newyear_X 86400 63334828800000000 63334742400000000 0
   = Inr [(63334828800000000, 1, 1, 2)]"
  by (simp add: sweep_eval newyear_checkdates newyear_strftime)

lemma newyear_rows:
  "year_of 63334828800000000 = 2008"
  "yday 63334828800000000 = 1"
  "dtime_of 86400 63334828800000000 = 0"
  by code_simp+

lemma newyear_run:
  "event2time newyear_yyyy newyear_doytime newyear_X ''sum'' (Some 86400)
   = Inr ([2008], [0], [2])"
  by (simp add: run_eval newyear_boundaries newyear_sweep newyear_rows)

subsection \<open>An interval that does not divide the day\<close>

lemma overrun_checkdates:
  "checkdate_at overrun_yyyy overrun_doytime 0 = Inr 63334828800000000"
  "checkdate_at overrun_yyyy overrun_doytime (Suc 0) = Inr 63334915200000000"
  "checkdate_at overrun_yyyy overrun_doytime (Suc (Suc 0)) = Inl IndexError"
  "getitem overrun_X (Suc 0) = Inr 0"
  by (simp_all add: checkdate_defs overrun_yyyy_def overrun_doytime_def overrun_X_def)

lemma overrun_boundaries:
  "startdate_of overrun_yyyy overrun_doytime 50000 = Inr 63334878800000000"
  "enddate_of overrun_yyyy overrun_doytime 50000 = Inr 63334915200000000"
  by (simp_all add: boundary_defs overrun_yyyy_def overrun_doytime_def)

lemma overrun_inner:
  "inner_loop overrun_yyyy overrun_doytime overrun_X 63334928800000000 1
     63334915200000000 1 0 = Inl IndexError"
  by (simp add: inner_loop.simps overrun_checkdates)

lemma overrun_sweep:
  "sweep overrun_yyyy overrun_doytime overrun_X 50000 63334915200000000 63334878800000000 0
   = Inl IndexError"
  by (simp add: sweep_eval overrun_checkdates)

lemma overrun_run:
  "event2time overrun_yyyy overrun_doytime overrun_X ''sum'' (Some 50000) = Inl IndexError"
  by (simp add: run_eval overrun_boundaries overrun_sweep)

lemma overrun_valid: "valid_input overrun_yyyy overrun_doytime overrun_X"
  by (simp add: valid_input_def event_times_def checkdate_defs
      overrun_yyyy_def overrun_doytime_def overrun_X_def)

subsection \<open>A bucket without events\<close>

lemma gap_checkdates:
  "checkdate_at gap_yyyy gap_doytime 0 = Inr 63347970240000000"
  "checkdate_at gap_yyyy gap_doytime (Suc 0) = Inr 63348039360000000"
  "getitem gap_X (Suc 0) = Inr 2"
  by (simp_all add: checkdate_defs gap_yyyy_def gap_doytime_def gap_X_def)

lemma gap_boundaries:
  "startdate_of gap_yyyy gap_doytime 21600 = Inr 63347983200000000"
  "enddate_of gap_yyyy gap_doytime 21600 = Inr 63348026400000000"
  by (simp_all add: boundary_defs gap_yyyy_def gap_doytime_def)

lemma gap_strftime:
  "strftime_check 63348004800000000 = Inr ()"
  "strftime_check 63348026400000000 = Inr ()"
  by code_simp+

lemma gap_sweep:
  "sweep gap_yyyy gap_doytime gap_X 21600 63348026400000000 63347983200000000 0
   = Inr [(63348004800000000, 1, 1, 2), (63348026400000000, 1, 0, 0)]"
  by (simp add: sweep_eval gap_checkdates gap_strftime)

lemma gap_rows:
  "map year_of [63348004800000000, 63348026400000000] = [2008, 2008]"
  "map (dtime_of 21600) [63348004800000000, 63348026400000000] = [307 / 2, 615 / 4]"
  by code_simp+

lemma gap_run:
  "event2time gap_yyyy gap_doytime gap_X ''avg'' (Some 21600)
   = Inr ([2008, 2008], [307 / 2, 615 / 4], [2, - 9999])"
  using gap_rows
  by (simp add: run_eval gap_boundaries gap_sweep)

subsection \<open>An hourly series resampled by the hour\<close>

lemma hourly_checkdates:
  "checkdate_at hourly_yyyy hourly_doytime 0 = Inr 63348004800000000"
  "checkdate_at hourly_yyyy hourly_doytime (Suc 0) = Inr 63348008400000000"
  "checkdate_at hourly_yyyy hourly_doytime (Suc (Suc 0)) = Inr 63348012000000000"
  "checkdate_at hourly_yyyy hourly_doytime (Suc (Suc (Suc 0))) = Inr 63348015600000000"
  "getitem hourly_X (Suc 0) = Inr 2"
  "getitem hourly_X (Suc (Suc 0)) = Inr 3"
  "getitem hourly_X (Suc (Suc (Suc 0))) = Inr 4"
  by (simp_all add: checkdate_defs hourly_yyyy_def hourly_doytime_def hourly_X_def)

lemma hourly_boundaries:
  "startdate_of hourly_yyyy hourly_doytime 3600 = Inr 63348008400000000"
  "enddate_of hourly_yyyy hourly_doytime 3600 = Inr 63348015600000000"
  by (simp_all add: boundary_defs hourly_yyyy_def hourly_doytime_def)

lemma hourly_strftime:
  "strftime_check 63348012000000000 = Inr ()"
  "strftime_check 63348015600000000 = Inr ()"
  by code_simp+

lemma hourly_sweep:
  "sweep hourly_yyyy hourly_doytime hourly_X 3600 63348015600000000 63348008400000000 0
   = Inr [(63348012000000000, 2, 2, 5), (63348015600000000, 3, 1, 4)]"
  by (simp add: sweep_eval hourly_checkdates hourly_strftime)

lemma hourly_rows:
  "map year_of [63348012000000000, 63348015600000000] = [2008, 2008]"
  "map (dtime_of 3600) [63348012000000000, 63348015600000000] = [1843 / 12, 1229 / 8]"
  by code_simp+

lemma hourly_run:
  "event2time hourly_yyyy hourly_doytime hourly_X ''sum'' (Some 3600)
   = Inr ([2008, 2008], [1843 / 12, 1229 / 8], [5, 4])"
  "event2time hourly_yyyy hourly_doytime hourly_X ''avg'' (Some 3600)
   = Inr ([2008, 2008], [1843 / 12, 1229 / 8], [5 / 2, 4])"
  using hourly_rows
  by (simp_all add: run_eval hourly_boundaries hourly_sweep)


subsection \<open>The claims settled on the examples\<close>

text \<open>
  Claim C3. The documented call returns 13 rows: the years are all 2008, the timestamps go
  from \<open>153 + 14/24\<close> to \<open>154 + 2/24\<close> in steps of \<open>1/24\<close> day, and the aggregates are
  0.4, seven zeros, 2.0 and four zeros.
\<close>

theorem documented_example:
  "event2time [2008, 2008, 2008] [153.5, 153.9, 154.1] [0, 0.4, 2.0] ''sum'' (Some 3600)
   = Inr (replicate 13 2008,
          map (\<lambda>k. 153 + (14 + real k) / 24) [0..<13],
          [0.4, 0, 0, 0, 0, 0, 0, 0, 2.0, 0, 0, 0, 0])"
proof -
  have r: "replicate 13 (2008 :: int)
      = [2008, 2008, 2008, 2008, 2008, 2008, 2008, 2008, 2008, 2008, 2008, 2008, 2008]"
    by code_simp
  have m: "map (\<lambda>k. 153 + (14 + real k) / 24) [0..<13]
      = [1843 / 12, 1229 / 8, 461 / 3, 3689 / 24, 615 / 4, 3691 / 24, 923 / 6,
         1231 / 8, 1847 / 12, 3695 / 24, 154, 3697 / 24, 1849 / 12]"
    by code_simp
  show ?thesis
    unfolding r m
    using doctest_run [unfolded doctest_yyyy_def doctest_doytime_def doctest_X_def]
    by simp
qed

text \<open>
  Claim C2. The inner loop has no bound on \<open>j\<close>. For two events at the midnights of days 1
  and 2 of 2008 and an interval of 50000 seconds the input is valid and the call ends in
  IndexError: the first boundary after the start is later than the last event, so the inner
  loop, entered again at \<open>j = 1\<close> with the time of the last event, consumes it and reads
  index 2, the length of the input.
\<close>

theorem inner_loop_reads_past_last_event:
  "valid_input [2008, 2008] [1, 2] [0, 0] \<and> valid_interval (Some 50000)
   \<and> event2time [2008, 2008] [1, 2] [0, 0] ''sum'' (Some 50000) = Inl IndexError
   \<and> inner_loop [2008, 2008] [1, 2] [0, 0] 63334928800000000 1 63334915200000000 1 0
       = Inl IndexError
   \<and> checkdate_at [2008, 2008] [1, 2] (length [2008 :: int, 2008]) = Inl IndexError"
  using overrun_valid overrun_run overrun_inner overrun_checkdates(3)
  unfolding overrun_yyyy_def overrun_doytime_def overrun_X_def
  by (simp add: valid_interval_def)

text \<open>
  Claim C7, evaluated where it fails. Two events at noon of 2007-12-31 and of 2008-01-01,
  resampled by the day, give one row for the boundary at the midnight of 2008-01-01: year
  2008 and day of the year 0.
\<close>

theorem daily_row_at_new_year:
  "event2time [2007, 2008] [365.5, 1.5] [1, 2] ''sum'' (Some 86400) = Inr ([2008], [0], [2])"
  using newyear_run unfolding newyear_yyyy_def newyear_doytime_def newyear_X_def .

text \<open>
  Claim C1 as stated fails on the documented call: the emitted aggregates add up to 2.4,
  and the only event in the window from the start to the end boundary has the value 0.4.
\<close>

theorem window_sum_counterexample:
  "valid_input [2008, 2008, 2008] [153.5, 153.9, 154.1] [0, 0.4, 2.0]
   \<and> event2time [2008, 2008, 2008] [153.5, 153.9, 154.1] [0, 0.4, 2.0] ''sum'' (Some 3600)
       = Inr ([2008, 2008, 2008, 2008, 2008, 2008, 2008, 2008, 2008, 2008, 2008, 2008, 2008],
           [1843 / 12, 1229 / 8, 461 / 3, 3689 / 24, 615 / 4, 3691 / 24, 923 / 6,
            1231 / 8, 1847 / 12, 3695 / 24, 154, 3697 / 24, 1849 / 12],
           [2 / 5, 0, 0, 0, 0, 0, 0, 0, 2, 0, 0, 0, 0])
   \<and> sum_list [2 / 5, 0, 0, 0, 0, 0, 0, 0, 2, 0, 0, 0, 0 :: real] = 12 / 5
   \<and> startdate_of [2008, 2008, 2008] [153.5, 153.9, 154.1] 3600 = Inr 63348008400000000
   \<and> enddate_of [2008, 2008, 2008] [153.5, 153.9, 154.1] 3600 = Inr 63348055200000000
   \<and> window_sum [2008, 2008, 2008] [153.5, 153.9, 154.1] [0, 0.4, 2.0]
        63348008400000000 63348055200000000 = 2 / 5"
  using doctest_valid doctest_run doctest_boundaries doctest_window
  unfolding doctest_yyyy_def doctest_doytime_def doctest_X_def
  by simp

text \<open>
  On the documented call the events before the last boundary are events 0 and 1, and the
  emitted aggregates add up to \<open>X[1] + X[2]\<close>.
\<close>

theorem sum_of_rows_is_sum_of_successors_witness:
  "valid_input [2008, 2008, 2008] [153.5, 153.9, 154.1] [0, 0.4, 2.0]
   \<and> valid_interval (Some 3600)
   \<and> events_before [2008, 2008, 2008] [153.5, 153.9, 154.1] 63348055200000000 = [0, 1]
   \<and> sum_list [2 / 5, 0, 0, 0, 0, 0, 0, 0, 2, 0, 0, 0, 0 :: real]
       = [0, 0.4, 2.0] ! 1 + [0, 0.4, 2.0] ! 2"
proof -
  have I: "normalize_interval (Some 3600) = 3600"
    by (simp add: normalize_interval_def)
  have vi: "valid_interval (Some 3600)"
    by (simp add: valid_interval_def)
  have m: "normalize_method ''sum'' = ''sum''"
    by (simp add: normalize_method_def)
  have s: "startdate_of doctest_yyyy doctest_doytime (normalize_interval (Some 3600))
      = Inr 63348008400000000"
    using doctest_boundaries(1) by (simp only: I)
  from sum_of_rows_is_sum_of_successors [OF doctest_valid vi m doctest_run s]
  have "sum_list [2 / 5, 0, 0, 0, 0, 0, 0, 0, 2, 0, 0, 0, 0 :: real]
      = sum_list (map (\<lambda>i. doctest_X ! (i + 1))
          (events_before doctest_yyyy doctest_doytime 63348055200000000))"
    by (simp add: I)
  with doctest_valid vi doctest_events_before show ?thesis
    unfolding doctest_yyyy_def doctest_doytime_def doctest_X_def
    by simp
qed

text \<open>
  The daily row across the new year: the boundary is day 1 of 2008 and the row carries day 0.
\<close>

theorem daily_rows_carry_previous_day_witness:
  "event2time [2007, 2008] [365.5, 1.5] [1, 2] ''sum'' (Some 86400) = Inr ([2008], [0], [2])
   \<and> startdate_of [2007, 2008] [365.5, 1.5] 86400 = Inr 63334742400000000
   \<and> [2008 :: int] ! 0 = year_of 63334828800000000
   \<and> \<lfloor>[0 :: real] ! 0\<rfloor> = yday 63334828800000000 - 1
   \<and> yday 63334828800000000 = 1"
proof -
  have I: "normalize_interval (Some 86400) = 86400"
    by (simp add: normalize_interval_def)
  have k: "0 < length [0 :: real]" by simp
  have s: "startdate_of newyear_yyyy newyear_doytime (normalize_interval (Some 86400))
      = Inr 63334742400000000"
    using newyear_boundaries(1) by (simp only: I)
  from daily_rows_carry_previous_day [OF newyear_run s k]
  have "[2008 :: int] ! 0 = year_of 63334828800000000
    \<and> \<lfloor>[0 :: real] ! 0\<rfloor> = yday 63334828800000000 - 1"
    by (simp add: I)
  with newyear_run newyear_boundaries(1) newyear_rows(2) show ?thesis
    unfolding newyear_yyyy_def newyear_doytime_def newyear_X_def
    by simp
qed

text \<open>
  Two events six hours or more apart, averaged over six hours: the first bucket counts one
  event and emits its sum, the second counts none and emits \<open>-9999\<close>.
\<close>

theorem aggregate_of_every_bucket_witness:
  "event2time [2008, 2008] [153.1, 153.9] [1, 2] ''avg'' (Some 21600)
     = Inr ([2008, 2008], [307 / 2, 615 / 4], [2, - 9999])
   \<and> sweep [2008, 2008] [153.1, 153.9] [1, 2] 21600 63348026400000000 63347983200000000 0
     = Inr [(63348004800000000, 1, 1, 2), (63348026400000000, 1, 0, 0)]
   \<and> [2, - 9999 :: real] ! 0 = 2 / real 1
   \<and> [2, - 9999 :: real] ! 1 = - 9999"
proof -
  have I: "normalize_interval (Some 21600) = 21600"
    by (simp add: normalize_interval_def)
  have m: "normalize_method ''avg'' = ''avg''"
    by (simp add: normalize_method_def)
  from aggregate_of_every_bucket [of gap_yyyy gap_doytime gap_X "''avg''" "Some 21600"
      "[2008, 2008]" "[307 / 2, 615 / 4]" "[2, - 9999]"] gap_run
  obtain s e bs where
    "startdate_of gap_yyyy gap_doytime (normalize_interval (Some 21600)) = Inr s"
    "enddate_of gap_yyyy gap_doytime (normalize_interval (Some 21600)) = Inr e"
    "sweep gap_yyyy gap_doytime gap_X (normalize_interval (Some 21600)) e s 0 = Inr bs"
    and all: "\<forall>k<length bs. case bs ! k of (b, j, counter, processedY) \<Rightarrow>
                (normalize_method ''avg'' = ''avg'' \<and> counter = 0
                   \<longrightarrow> [2, - 9999 :: real] ! k = - 9999)
              \<and> (normalize_method ''avg'' = ''avg'' \<and> 1 \<le> counter
                   \<longrightarrow> [2, - 9999 :: real] ! k = processedY / real counter)
              \<and> (normalize_method ''avg'' = ''sum'' \<longrightarrow> [2, - 9999 :: real] ! k = processedY)
              \<and> (normalize_method ''avg'' = ''sum'' \<and> counter = 0
                   \<longrightarrow> [2, - 9999 :: real] ! k = 0)"
    by blast
  then have bs: "bs = [(63348004800000000, 1, 1, 2), (63348026400000000, 1, 0, 0)]"
    using gap_boundaries gap_sweep by (simp add: I)
  from all [rule_format, of 0] all [rule_format, of 1]
  have "[2, - 9999 :: real] ! 0 = 2 / real 1 \<and> [2, - 9999 :: real] ! 1 = - 9999"
    unfolding bs m by simp
  with gap_run gap_sweep show ?thesis
    unfolding gap_yyyy_def gap_doytime_def gap_X_def
    by simp
qed

text \<open>
  One event at 16:48 and an interval of an hour: the start boundary is 17:00, the end
  boundary 16:00, and no row is emitted.
\<close>

theorem single_event_no_rows_witness:
  "valid_interval (Some 3600)
   \<and> startdate_of [2008] [153.7] 3600 = Inr 63348022800000000
   \<and> enddate_of [2008] [153.7] 3600 = Inr 63348019200000000
   \<and> event2time [2008] [153.7] [1] ''avg'' (Some 3600) = Inr ([], [], [])
   \<and> (63348019200000000 :: int) < 63348022800000000"
proof -
  have I: "normalize_interval (Some 3600) = 3600"
    by (simp add: normalize_interval_def)
  have vi: "valid_interval (Some 3600)"
    by (simp add: valid_interval_def)
  have s: "startdate_of [2008] [153.7] 3600 = Inr 63348022800000000"
    and e: "enddate_of [2008] [153.7] 3600 = Inr 63348019200000000"
    by (simp_all add: boundary_defs)
  have s': "startdate_of [2008] [153.7] (normalize_interval (Some 3600))
      = Inr 63348022800000000"
    and e': "enddate_of [2008] [153.7] (normalize_interval (Some 3600))
      = Inr 63348019200000000"
    using s e by (simp_all only: I)
  from single_event_no_rows [OF vi s' e', of 1 "''avg''"] vi s e
  show ?thesis
    by (simp add: I)
qed

text \<open>
  The method \<open>mean\<close>, the interval 999999, and a first event at 16:40 with an interval of
  50000 seconds, whose first boundary would be at second 100000 of the day.
\<close>

theorem warnings_never_errors_witness:
  "event2time [2008, 2008] [1, 2] [0, 0] ''mean'' (Some 3600)
     = event2time [2008, 2008] [1, 2] [0, 0] ''sum'' (Some 3600)
   \<and> UnknownMethod \<in> set (event2time_warnings [1, 2] ''mean'' (Some 3600))
   \<and> event2time [2008, 2008] [1, 2] [0, 0] ''mean'' (Some 999999)
     = event2time [2008, 2008] [1, 2] [0, 0] ''mean'' (Some 86400)
   \<and> IntervalTooLarge \<in> set (event2time_warnings [1, 2] ''mean'' (Some 999999))
   \<and> starttime_raw (1 + 60000 / 86400) 50000 = 100000
   \<and> starttime_of (1 + 60000 / 86400) 50000 = 86400
   \<and> StartPastMidnight \<in> set (event2time_warnings [1 + 60000 / 86400, 2] ''sum'' (Some 50000))"
proof -
  have raw: "starttime_raw (1 + 60000 / 86400) 50000 = 100000"
    by (simp add: starttime_raw_def frac_def Let_def)
  have I: "normalize_interval (Some 50000) = 50000"
    by (simp add: normalize_interval_def)
  have m: "''mean'' \<noteq> ''sum'' \<and> ''mean'' \<noteq> ''avg''" by simp
  have i: "(86400 :: int) < 999999" by simp
  from warnings_never_errors [of "''mean''" "[2008, 2008]" "[1, 2]" "[0, 0]" "Some 3600"
      999999 "1 + 60000 / 86400" 50000] m i raw
  have a: "event2time [2008, 2008] [1, 2] [0, 0] ''mean'' (Some 3600)
     = event2time [2008, 2008] [1, 2] [0, 0] ''sum'' (Some 3600)
   \<and> UnknownMethod \<in> set (event2time_warnings [1, 2] ''mean'' (Some 3600))
   \<and> event2time [2008, 2008] [1, 2] [0, 0] ''mean'' (Some 999999)
     = event2time [2008, 2008] [1, 2] [0, 0] ''mean'' (Some 86400)
   \<and> IntervalTooLarge \<in> set (event2time_warnings [1, 2] ''mean'' (Some 999999))
   \<and> starttime_of (1 + 60000 / 86400) 50000 = 86400"
    by simp
  from warnings_never_errors [of "''sum''" "[2008, 2008]" "[1 + 60000 / 86400, 2]" "[0, 0]"
      "Some 50000" 999999 "1 + 60000 / 86400" 50000] raw
  have "StartPastMidnight
      \<in> set (event2time_warnings [1 + 60000 / 86400, 2] ''sum'' (Some 50000))"
    by (simp add: I)
  with a raw show ?thesis by simp
qed

text \<open>
  Claim C5 as stated fails: four hourly events on the hourly grid, resampled by the hour,
  give two rows, at the times of the third and the fourth event, with the aggregates
  \<open>X[1] + X[2]\<close> (or their mean) and \<open>X[3]\<close>.
\<close>

theorem hourly_series_not_reproduced:
  "event2time [2008, 2008, 2008, 2008] [307 / 2, 3685 / 24, 1843 / 12, 1229 / 8] [1, 2, 3, 4]
     ''sum'' (Some 3600) = Inr ([2008, 2008], [1843 / 12, 1229 / 8], [5, 4])
   \<and> event2time [2008, 2008, 2008, 2008] [307 / 2, 3685 / 24, 1843 / 12, 1229 / 8]
     [1, 2, 3, 4] ''avg'' (Some 3600) = Inr ([2008, 2008], [1843 / 12, 1229 / 8], [5 / 2, 4])
   \<and> event2time [2008, 2008, 2008, 2008] [307 / 2, 3685 / 24, 1843 / 12, 1229 / 8]
     [1, 2, 3, 4] ''sum'' (Some 3600)
     \<noteq> Inr ([2008, 2008, 2008, 2008], [307 / 2, 3685 / 24, 1843 / 12, 1229 / 8], [1, 2, 3, 4])"
  using hourly_run unfolding hourly_yyyy_def hourly_doytime_def hourly_X_def
  by simp

lemma hourly_equidistant:
  "equidistant hourly_yyyy hourly_doytime 3600 63348004800000000"
  "on_grid hourly_doytime 3600"
  "doy_in_year hourly_yyyy hourly_doytime"
  "\<forall>y\<in>set hourly_yyyy. 1900 \<le> y"
    by (simp_all add: equidistant_def event_times_def checkdate_defs on_grid_def end_second_def
        doy_in_year_def days_in_year_def is_leap_def hourly_yyyy_def hourly_doytime_def)

text \<open>
  Four hourly events from noon of day 153 of 2008, averaged by the hour: two rows.
\<close>

theorem equidistant_series_resampled_witness:
  "equidistant [2008, 2008, 2008, 2008] [307 / 2, 3685 / 24, 1843 / 12, 1229 / 8] 3600
     63348004800000000
   \<and> on_grid [307 / 2, 3685 / 24, 1843 / 12, 1229 / 8] 3600
   \<and> doy_in_year [2008, 2008, 2008, 2008] [307 / 2, 3685 / 24, 1843 / 12, 1229 / 8]
   \<and> list_all (\<lambda>y. 1900 \<le> y) [2008, 2008, 2008, 2008 :: int]
   \<and> event2time [2008, 2008, 2008, 2008] [307 / 2, 3685 / 24, 1843 / 12, 1229 / 8]
        [1, 2, 3, 4] ''avg'' (Some 3600)
      = Inr ([2008, 2008], [1843 / 12, 1229 / 8], [5 / 2, 4])"
proof -
  have len: "length hourly_doytime = length hourly_yyyy" "length hourly_X = length hourly_yyyy"
    "3 \<le> length hourly_yyyy"
    by (simp_all add: hourly_yyyy_def hourly_doytime_def hourly_X_def)
  have I: "(1 :: int) \<le> 3600" "(3600 :: int) < 86400" "(86400 :: int) mod 3600 = 0"
    by simp_all
  from equidistant_series_resampled [OF len I hourly_equidistant, of "''avg''"]
  have "event2time hourly_yyyy hourly_doytime hourly_X ''avg'' (Some 3600)
      = Inr ([2008, 2008], [1843 / 12, 1229 / 8], [5 / 2, 4])"
    by (simp add: normalize_method_def hourly_yyyy_def hourly_doytime_def hourly_X_def)
  with hourly_equidistant show ?thesis
    unfolding hourly_yyyy_def hourly_doytime_def hourly_X_def by simp
qed

end
